theory Spec2Isabelle
  imports Main "HOL-Library.AList" "HOL-Library.Multiset" "HOL-Library.Product_Lexorder"
begin

section \<open>The crossword solver of generar.py\<close>

text \<open>
  The module \<^verbatim>\<open>generar.py\<close> defines the class \<^verbatim>\<open>CreadorCrucigrama\<close>: a
  constraint solver over the slots of a crossword grid.  The class \<^verbatim>\<open>Crucigrama\<close>
  and the class \<^verbatim>\<open>Variable\<close> it works on are imported from \<^verbatim>\<open>crucigrama.py\<close>.

  Conventions of the embedding.
  \<^item> A Python \<^verbatim>\<open>set\<close> is the list of its elements in iteration order, each
    element once, and \<^verbatim>\<open>len\<close> of it is the length of the list; a Python
    \<^verbatim>\<open>dict\<close> is an association list in insertion order, read with \<open>map_of\<close> and
    written with \<open>AList.update\<close> (which replaces in place or appends, as a dict does).
  \<^item> The sets held in \<^verbatim>\<open>self.dominios\<close> are mutable objects that
    \<^verbatim>\<open>revisar\<close> changes in place and that \<^verbatim>\<open>backtrack\<close> shares with
    its \<^verbatim>\<open>inferences\<close> dictionaries, so the state is an explicit store: the
    dictionary maps a variable to a reference, and \<open>heap\<close> maps a reference to the
    contents of the set object.
  \<^item> An exception is a value \<open>Inl e\<close> of the result.
\<close>

subsection \<open>Data\<close>

datatype direccion = DERECHA | ABAJO

datatype variable = Variable (var_i: nat) (var_j: nat) (direccion: direccion) (longitud: nat)

text \<open>
  What the solver reads of a \<^verbatim>\<open>Crucigrama\<close>: the set \<^verbatim>\<open>variables\<close>, the set
  \<^verbatim>\<open>words\<close> and the table \<^verbatim>\<open>solapamientos\<close>, which gives for a pair of
  variables the pair of letter positions where they cross; \<open>None\<close> stands for a pair
  without overlap (the table holds \<^verbatim>\<open>None\<close> or has no entry).
\<close>

record crucigrama =
  variables :: "variable list"
  words :: "string list"
  solapamientos :: "variable \<times> variable \<Rightarrow> (nat \<times> nat) option"

text \<open>
  Modelled from the spec: the method \<^verbatim>\<open>vecinos\<close> of \<^verbatim>\<open>Crucigrama\<close> is not in
  the sources at hand.  The specification gives it as the set of the variables that share
  a cell with \<open>var\<close>, \<open>var\<close> itself excluded, derived from the overlap table.
\<close>

definition vecinos :: "crucigrama \<Rightarrow> variable \<Rightarrow> variable list" where
  "vecinos cw var =
     filter (\<lambda>v. v \<noteq> var \<and> solapamientos cw (v, var) \<noteq> None) (variables cw)"

datatype err = KeyError | IndexError | TypeError

type_synonym ref = nat

text \<open>The part of a \<^verbatim>\<open>CreadorCrucigrama\<close> that changes: \<^verbatim>\<open>self.dominios\<close>.\<close>

record creador =
  dominios :: "(variable \<times> ref) list"
  heap :: "ref \<Rightarrow> string list"
  libre :: ref

type_synonym asignacion = "(variable \<times> string) list"

text \<open>A new set object with the given contents (\<^verbatim>\<open>.copy()\<close>, a set comprehension).\<close>

definition nuevo_conjunto :: "string list \<Rightarrow> creador \<Rightarrow> ref \<times> creador" where
  "nuevo_conjunto ws s =
     (libre s, s\<lparr>heap := (heap s)(libre s := ws), libre := Suc (libre s)\<rparr>)"

text \<open>\<^verbatim>\<open>self.dominios[var] = r\<close>\<close>

definition asignar_dominio :: "variable \<Rightarrow> ref \<Rightarrow> creador \<Rightarrow> creador" where
  "asignar_dominio var r s = s\<lparr>dominios := AList.update var r (dominios s)\<rparr>"

text \<open>
  The contents of \<^verbatim>\<open>self.dominios[var]\<close>, for stating properties: \<open>None\<close> when
  \<open>var\<close> is not a key.
\<close>

definition dominio :: "creador \<Rightarrow> variable \<Rightarrow> string list option" where
  "dominio s var = map_option (heap s) (map_of (dominios s) var)"

subsection \<open>Construction and node consistency\<close>

text \<open>
  \<^verbatim>\<open>__init__\<close>: one copy of the vocabulary for each variable.
\<close>

definition creador_init :: "crucigrama \<Rightarrow> creador" where
  "creador_init cw =
     fold (\<lambda>var s. case nuevo_conjunto (words cw) s of (r, s') \<Rightarrow> asignar_dominio var r s')
       (variables cw) \<lparr>dominios = [], heap = (\<lambda>_. []), libre = 0\<rparr>"

text \<open>
  \<^verbatim>\<open>consistencia_nodo\<close>: for each key, a new set with the words of the right length.
  The loop runs over the keys of the dictionary, so the lookup in its body finds the key.
\<close>

definition consistencia_nodo_paso :: "variable \<Rightarrow> creador \<Rightarrow> creador" where
  "consistencia_nodo_paso var s =
     (case map_of (dominios s) var of
        None \<Rightarrow> s
      | Some r \<Rightarrow>
          (case nuevo_conjunto (filter (\<lambda>palabra. length palabra = longitud var) (heap s r)) s of
             (r', s') \<Rightarrow> asignar_dominio var r' s'))"

definition consistencia_nodo :: "creador \<Rightarrow> creador" where
  "consistencia_nodo s = fold consistencia_nodo_paso (map fst (dominios s)) s"

subsection \<open>Arc consistency\<close>

text \<open>
  \<^verbatim>\<open>any(palabra_x[i] == palabra_y[j] for palabra_y in self.dominios[y])\<close>:
  the generator stops at the first match, and an index out of range raises.
\<close>

fun cumple_restriccion :: "nat \<Rightarrow> nat \<Rightarrow> string \<Rightarrow> string list \<Rightarrow> err + bool" where
  "cumple_restriccion i j palabra_x [] = Inr False"
| "cumple_restriccion i j palabra_x (palabra_y # resto) =
     (if length palabra_x \<le> i \<or> length palabra_y \<le> j then Inl IndexError
      else if palabra_x ! i = palabra_y ! j then Inr True
      else cumple_restriccion i j palabra_x resto)"

text \<open>
  The loop of \<^verbatim>\<open>revisar\<close> over the snapshot \<^verbatim>\<open>set(self.dominios[x])\<close>.  Each
  round reads \<^verbatim>\<open>self.dominios[y]\<close> anew and removes from the live set of \<open>x\<close>; the
  word removed comes from the snapshot, so the set holds it.
\<close>

fun revisar_bucle ::
  "nat \<Rightarrow> nat \<Rightarrow> variable \<Rightarrow> variable \<Rightarrow> string list \<Rightarrow> bool \<Rightarrow> creador \<Rightarrow> err + bool \<times> creador"
where
  "revisar_bucle i j x y [] revisado s = Inr (revisado, s)"
| "revisar_bucle i j x y (palabra_x # resto) revisado s =
     (case map_of (dominios s) y of
        None \<Rightarrow> Inl KeyError
      | Some ry \<Rightarrow>
          (case cumple_restriccion i j palabra_x (heap s ry) of
             Inl e \<Rightarrow> Inl e
           | Inr True \<Rightarrow> revisar_bucle i j x y resto revisado s
           | Inr False \<Rightarrow>
               (case map_of (dominios s) x of
                  None \<Rightarrow> Inl KeyError
                | Some rx \<Rightarrow>
                    revisar_bucle i j x y resto True
                      (s\<lparr>heap := (heap s)(rx := removeAll palabra_x (heap s rx))\<rparr>))))"

definition revisar :: "crucigrama \<Rightarrow> variable \<Rightarrow> variable \<Rightarrow> creador \<Rightarrow> err + bool \<times> creador" where
  "revisar cw x y s =
     (case solapamientos cw (x, y) of
        None \<Rightarrow> Inr (False, s)
      | Some (i, j) \<Rightarrow>
          (case map_of (dominios s) x of
             None \<Rightarrow> Inl KeyError
           | Some rx \<Rightarrow> revisar_bucle i j x y (heap s rx) False s))"

text \<open>
  The \<^verbatim>\<open>while arcs:\<close> loop of \<^verbatim>\<open>ac3\<close>.  \<^verbatim>\<open>arcs.pop()\<close> takes the last
  element and \<^verbatim>\<open>arcs.append\<close> adds at the end.  The result is \<open>None\<close> when the loop
  does not return.
\<close>

partial_function (option) ac3_bucle ::
  "crucigrama \<Rightarrow> (variable \<times> variable) list \<Rightarrow> creador \<Rightarrow> (err + bool \<times> creador) option"
where
  "ac3_bucle cw arcs s =
     (if arcs = [] then Some (Inr (True, s))
      else
        (case last arcs of
           (x, y) \<Rightarrow>
             (case revisar cw x y s of
                Inl e \<Rightarrow> Some (Inl e)
              | Inr (revisado, s') \<Rightarrow>
                  if revisado then
                    (case map_of (dominios s') x of
                       None \<Rightarrow> Some (Inl KeyError)
                     | Some rx \<Rightarrow>
                         if heap s' rx = [] then Some (Inr (False, s'))
                         else ac3_bucle cw
                                (butlast arcs @ map (\<lambda>z. (z, x)) (removeAll y (vecinos cw x))) s')
                  else ac3_bucle cw (butlast arcs) s')))"

definition todos_los_arcos :: "crucigrama \<Rightarrow> creador \<Rightarrow> (variable \<times> variable) list" where
  "todos_los_arcos cw s =
     concat (map (\<lambda>x. map (\<lambda>y. (x, y)) (vecinos cw x)) (map fst (dominios s)))"

definition ac3 ::
  "crucigrama \<Rightarrow> (variable \<times> variable) list option \<Rightarrow> creador \<Rightarrow> (err + bool \<times> creador) option"
where
  "ac3 cw arcs s =
     ac3_bucle cw (case arcs of None \<Rightarrow> todos_los_arcos cw s | Some as \<Rightarrow> as) s"

subsection \<open>Predicates on assignments\<close>

definition asignacion_completa :: "crucigrama \<Rightarrow> asignacion \<Rightarrow> bool" where
  "asignacion_completa cw asig = (set (map fst asig) = set (variables cw))"

text \<open>
  The inner loop of \<^verbatim>\<open>consistencia\<close> over \<^verbatim>\<open>vecinos(var1)\<close>.  Unpacking
  \<^verbatim>\<open>i, j = self.crucigrama.solapamientos[var1, var2]\<close> raises when the table has no
  pair of positions there.
\<close>

fun consistencia_vecinos ::
  "crucigrama \<Rightarrow> asignacion \<Rightarrow> variable \<Rightarrow> string \<Rightarrow> variable list \<Rightarrow> err + bool"
where
  "consistencia_vecinos cw asig var1 palabra1 [] = Inr True"
| "consistencia_vecinos cw asig var1 palabra1 (var2 # resto) =
     (case map_of asig var2 of
        None \<Rightarrow> consistencia_vecinos cw asig var1 palabra1 resto
      | Some palabra2 \<Rightarrow>
          (case solapamientos cw (var1, var2) of
             None \<Rightarrow> Inl TypeError
           | Some (i, j) \<Rightarrow>
               if length palabra1 \<le> i \<or> length palabra2 \<le> j then Inl IndexError
               else if palabra1 ! i \<noteq> palabra2 ! j then Inr False
               else consistencia_vecinos cw asig var1 palabra1 resto))"

fun consistencia_items :: "crucigrama \<Rightarrow> asignacion \<Rightarrow> (variable \<times> string) list \<Rightarrow> err + bool"
where
  "consistencia_items cw asig [] = Inr True"
| "consistencia_items cw asig ((var1, palabra1) # resto) =
     (if longitud var1 \<noteq> length palabra1 then Inr False
      else
        (case consistencia_vecinos cw asig var1 palabra1 (vecinos cw var1) of
           Inl e \<Rightarrow> Inl e
         | Inr False \<Rightarrow> Inr False
         | Inr True \<Rightarrow> consistencia_items cw asig resto))"

definition consistencia :: "crucigrama \<Rightarrow> asignacion \<Rightarrow> err + bool" where
  "consistencia cw asig = consistencia_items cw asig asig"

subsection \<open>Heuristics\<close>

text \<open>
  \<^verbatim>\<open>sorted(xs, key=f)\<close> and \<^verbatim>\<open>xs.sort(key=f)\<close>: the key of every element is
  computed once, in order, and the elements are put in ascending order of their keys by a
  stable sort.
\<close>

fun con_claves :: "('a \<Rightarrow> err + 'k) \<Rightarrow> 'a list \<Rightarrow> err + ('a \<times> 'k) list" where
  "con_claves f [] = Inr []"
| "con_claves f (x # xs) =
     (case f x of
        Inl e \<Rightarrow> Inl e
      | Inr k \<Rightarrow> (case con_claves f xs of Inl e \<Rightarrow> Inl e | Inr ps \<Rightarrow> Inr ((x, k) # ps)))"

definition sorted_py :: "('a \<Rightarrow> err + 'k::linorder) \<Rightarrow> 'a list \<Rightarrow> err + 'a list" where
  "sorted_py f xs =
     (case con_claves f xs of Inl e \<Rightarrow> Inl e | Inr ps \<Rightarrow> Inr (map fst (sort_key snd ps)))"

text \<open>
  \<^verbatim>\<open>conflictos(palabra)\<close> inside \<^verbatim>\<open>ordenar_valores_dominio\<close>: the sum of one
  for each neighbour that is not assigned and whose domain holds the word.
\<close>

fun conflictos :: "creador \<Rightarrow> asignacion \<Rightarrow> variable list \<Rightarrow> string \<Rightarrow> err + nat" where
  "conflictos s asig [] palabra = Inr 0"
| "conflictos s asig (vecino # resto) palabra =
     (if map_of asig vecino \<noteq> None then conflictos s asig resto palabra
      else
        (case map_of (dominios s) vecino of
           None \<Rightarrow> Inl KeyError
         | Some r \<Rightarrow>
             (case conflictos s asig resto palabra of
                Inl e \<Rightarrow> Inl e
              | Inr n \<Rightarrow> Inr (if palabra \<in> set (heap s r) then Suc n else n))))"

definition ordenar_valores_dominio ::
  "crucigrama \<Rightarrow> variable \<Rightarrow> asignacion \<Rightarrow> creador \<Rightarrow> err + string list"
where
  "ordenar_valores_dominio cw var asig s =
     (case map_of (dominios s) var of
        None \<Rightarrow> Inl KeyError
      | Some r \<Rightarrow> sorted_py (conflictos s asig (vecinos cw var)) (heap s r))"

definition clave_seleccion :: "crucigrama \<Rightarrow> creador \<Rightarrow> variable \<Rightarrow> err + nat \<times> int" where
  "clave_seleccion cw s var =
     (case map_of (dominios s) var of
        None \<Rightarrow> Inl KeyError
      | Some r \<Rightarrow> Inr (length (heap s r), - int (length (vecinos cw var))))"

definition seleccionar_variable_no_asignada ::
  "crucigrama \<Rightarrow> asignacion \<Rightarrow> creador \<Rightarrow> err + variable"
where
  "seleccionar_variable_no_asignada cw asig s =
     (case sorted_py (clave_seleccion cw s) (filter (\<lambda>v. map_of asig v = None) (variables cw)) of
        Inl e \<Rightarrow> Inl e
      | Inr [] \<Rightarrow> Inl IndexError
      | Inr (v # _) \<Rightarrow> Inr v)"

subsection \<open>Inference and search\<close>

text \<open>
  The \<^verbatim>\<open>while queue:\<close> loop of \<^verbatim>\<open>inferencia\<close>.  The dictionary
  \<^verbatim>\<open>inferences\<close> holds references to the copies made after each revision; \<open>None\<close>
  in the result pair is the \<^verbatim>\<open>None\<close> the method returns on an empty domain.
\<close>

partial_function (option) inferencia_bucle ::
  "crucigrama \<Rightarrow> (variable \<times> variable) list \<Rightarrow> (variable \<times> ref) list \<Rightarrow> creador \<Rightarrow>
     (err + (variable \<times> ref) list option \<times> creador) option"
where
  "inferencia_bucle cw queue inferences s =
     (if queue = [] then Some (Inr (Some inferences, s))
      else
        (case last queue of
           (x, y) \<Rightarrow>
             (case revisar cw x y s of
                Inl e \<Rightarrow> Some (Inl e)
              | Inr (revisado, s') \<Rightarrow>
                  if revisado then
                    (case map_of (dominios s') x of
                       None \<Rightarrow> Some (Inl KeyError)
                     | Some rx \<Rightarrow>
                         if heap s' rx = [] then Some (Inr (None, s'))
                         else
                           (case nuevo_conjunto (heap s' rx) s' of
                              (r, s'') \<Rightarrow>
                                inferencia_bucle cw
                                  (butlast queue @ map (\<lambda>z. (z, x)) (removeAll y (vecinos cw x)))
                                  (AList.update x r inferences) s''))
                  else inferencia_bucle cw (butlast queue) inferences s')))"

definition inferencia ::
  "crucigrama \<Rightarrow> asignacion \<Rightarrow> variable \<Rightarrow> creador \<Rightarrow>
     (err + (variable \<times> ref) list option \<times> creador) option"
where
  "inferencia cw asig var s =
     inferencia_bucle cw (map (\<lambda>x. (x, var)) (vecinos cw var)) [] s"

text \<open>
  Both loops of \<^verbatim>\<open>backtrack\<close> over \<^verbatim>\<open>inferences\<close>, the one after a successful
  inference and the one after a failed recursive call, store the references of
  \<^verbatim>\<open>inferences\<close> into \<^verbatim>\<open>self.dominios\<close>.
\<close>

definition volcar_inferencias :: "(variable \<times> ref) list \<Rightarrow> creador \<Rightarrow> creador" where
  "volcar_inferencias inferences s = fold (\<lambda>(variable, r). asignar_dominio variable r) inferences s"

text \<open>\<^verbatim>\<open>if resultado:\<close> holds for a dictionary that is not empty.\<close>

definition verdadero :: "asignacion option \<Rightarrow> bool" where
  "verdadero resultado = (case resultado of None \<Rightarrow> False | Some a \<Rightarrow> a \<noteq> [])"

text \<open>
  \<^verbatim>\<open>backtrack\<close>, with the \<^verbatim>\<open>for valor in ...\<close> loop as
  \<open>backtrack_valores\<close>.  The first argument bounds the depth of the recursion; the result
  is \<open>None\<close> when the bound is reached.
\<close>

fun backtrack ::
  "nat \<Rightarrow> crucigrama \<Rightarrow> asignacion \<Rightarrow> creador \<Rightarrow> (err + asignacion option \<times> creador) option"
and backtrack_valores ::
  "nat \<Rightarrow> crucigrama \<Rightarrow> asignacion \<Rightarrow> variable \<Rightarrow> string list \<Rightarrow> creador \<Rightarrow>
     (err + asignacion option \<times> creador) option"
where
  "backtrack 0 cw asig s = None"
| "backtrack (Suc n) cw asig s =
     (if asignacion_completa cw asig then Some (Inr (Some asig, s))
      else
        (case seleccionar_variable_no_asignada cw asig s of
           Inl e \<Rightarrow> Some (Inl e)
         | Inr var \<Rightarrow>
             (case ordenar_valores_dominio cw var asig s of
                Inl e \<Rightarrow> Some (Inl e)
              | Inr valores \<Rightarrow> backtrack_valores n cw asig var valores s)))"
| "backtrack_valores n cw asig var [] s = Some (Inr (None, s))"
| "backtrack_valores n cw asig var (valor # resto) s =
     (case consistencia cw (AList.update var valor asig) of
        Inl e \<Rightarrow> Some (Inl e)
      | Inr False \<Rightarrow> backtrack_valores n cw asig var resto s
      | Inr True \<Rightarrow>
          (case inferencia cw (AList.update var valor asig) var s of
             None \<Rightarrow> None
           | Some (Inl e) \<Rightarrow> Some (Inl e)
           | Some (Inr (None, s1)) \<Rightarrow> backtrack_valores n cw asig var resto s1
           | Some (Inr (Some inferences, s1)) \<Rightarrow>
               (case backtrack n cw (AList.update var valor asig) (volcar_inferencias inferences s1) of
                  None \<Rightarrow> None
                | Some (Inl e) \<Rightarrow> Some (Inl e)
                | Some (Inr (resultado, s2)) \<Rightarrow>
                    if verdadero resultado then Some (Inr (resultado, s2))
                    else backtrack_valores n cw asig var resto (volcar_inferencias inferences s2))))"

text \<open>\<^verbatim>\<open>solve\<close>: the value of \<^verbatim>\<open>self.ac3()\<close> is not looked at.\<close>

definition solve ::
  "nat \<Rightarrow> crucigrama \<Rightarrow> creador \<Rightarrow> (err + asignacion option \<times> creador) option"
where
  "solve n cw s =
     (case ac3 cw None (consistencia_nodo s) of
        None \<Rightarrow> None
      | Some (Inl e) \<Rightarrow> Some (Inl e)
      | Some (Inr (_, s')) \<Rightarrow> backtrack n cw [] s')"

subsection \<open>Views of the store and example puzzles\<close>

declare ac3_bucle.simps [code]
declare inferencia_bucle.simps [code]

text \<open>
  Python hands out a new object for every new set, so a reference that is in use is one
  that was handed out before.
\<close>

definition almacen_ok :: "creador \<Rightarrow> bool" where
  "almacen_ok s = list_all (\<lambda>p. snd p < libre s) (dominios s)"

text \<open>
  The class never stores one set object under two keys: every set in
  \<^verbatim>\<open>self.dominios\<close> is a copy made for its key.
\<close>

definition separados :: "creador \<Rightarrow> bool" where
  "separados s = distinct (map snd (dominios s))"

text \<open>
  The specification of \<^verbatim>\<open>revise\<close>: a word \<open>wx\<close> of \<open>x\<close> stays when some word
  \<open>wy\<close> of the domain of \<open>y\<close> has \<open>wx[i] == wy[j]\<close>.
\<close>

definition soportada :: "nat \<Rightarrow> nat \<Rightarrow> string list \<Rightarrow> string \<Rightarrow> bool" where
  "soportada i j dy wx = (\<exists>wy \<in> set dy. wx ! i = wy ! j)"

text \<open>
  The specification of the value ordering: the conflict count of a word is the number of
  neighbours of \<open>var\<close> that are not assigned and whose domain holds the word.
\<close>

definition num_conflictos ::
  "crucigrama \<Rightarrow> creador \<Rightarrow> asignacion \<Rightarrow> variable \<Rightarrow> string \<Rightarrow> nat"
where
  "num_conflictos cw s asig var palabra =
     length (filter (\<lambda>vecino. map_of asig vecino = None \<and>
                (\<exists>d. dominio s vecino = Some d \<and> palabra \<in> set d)) (vecinos cw var))"

text \<open>
  The specification of the variable ordering: the size of the remaining domain and the
  number of neighbours.
\<close>

definition tam :: "creador \<Rightarrow> variable \<Rightarrow> nat" where
  "tam s v = (case dominio s v of None \<Rightarrow> 0 | Some d \<Rightarrow> length d)"

definition grado :: "crucigrama \<Rightarrow> variable \<Rightarrow> nat" where
  "grado cw v = length (vecinos cw v)"

text \<open>The number of words in all the domains of the dictionary, counted key by key.\<close>

definition peso :: "creador \<Rightarrow> nat" where
  "peso s = sum_list (map (\<lambda>p. length (heap s (snd p))) (dominios s))"

text \<open>
  The references of a dictionary \<^verbatim>\<open>inferences\<close> are references that were handed
  out.
\<close>

definition refs_ok :: "creador \<Rightarrow> (variable \<times> ref) list \<Rightarrow> bool" where
  "refs_ok s inferences = list_all (\<lambda>p. snd p < libre s) inferences"

text \<open>The variables of the puzzle that an assignment leaves open.\<close>

definition sin_asignar :: "crucigrama \<Rightarrow> asignacion \<Rightarrow> variable set" where
  "sin_asignar cw asig = {v \<in> set (variables cw). map_of asig v = None}"

text \<open>
  The invariant that the specification gives for the overlap table: a pair of variables
  has an overlap when the two are different and cross, and then the other order of the
  pair has the two positions in the other order.
\<close>

definition estructura_ok :: "crucigrama \<Rightarrow> bool" where
  "estructura_ok cw =
     (\<forall>x y i j. solapamientos cw (x, y) = Some (i, j) \<longrightarrow>
        x \<noteq> y \<and> solapamientos cw (y, x) = Some (j, i))"

text \<open>The keys of \<^verbatim>\<open>self.dominios\<close> are the variables of the puzzle.\<close>

definition claves_ok :: "crucigrama \<Rightarrow> creador \<Rightarrow> bool" where
  "claves_ok cw s = (set (map fst (dominios s)) = set (variables cw))"

text \<open>
  Arc consistency as the specification states it: every word of the domain of \<open>x\<close> has
  a partner in the domain of \<open>y\<close>.
\<close>

definition arco_consistente :: "crucigrama \<Rightarrow> creador \<Rightarrow> variable \<Rightarrow> variable \<Rightarrow> bool" where
  "arco_consistente cw s x y =
     (\<forall>i j dx dy. solapamientos cw (x, y) = Some (i, j) \<longrightarrow> dominio s x = Some dx \<longrightarrow>
        dominio s y = Some dy \<longrightarrow> (\<forall>wx \<in> set dx. soportada i j dy wx))"

definition arcos :: "crucigrama \<Rightarrow> (variable \<times> variable) set" where
  "arcos cw = {(x, y). x \<in> set (variables cw) \<and> y \<in> set (vecinos cw x)}"

text \<open>
  The invariant of the loop of \<^verbatim>\<open>ac3\<close>: the list holds arcs of the puzzle, and an
  arc that is not in the list is consistent.
\<close>

definition inv_ac3 :: "crucigrama \<Rightarrow> (variable \<times> variable) list \<Rightarrow> creador \<Rightarrow> bool" where
  "inv_ac3 cw arcs s =
     (set arcs \<subseteq> arcos cw \<and>
      (\<forall>a b. (a, b) \<in> arcos cw \<longrightarrow> (a, b) \<in> set arcs \<or> arco_consistente cw s a b))"

text \<open>A store as a run of \<^verbatim>\<open>ac3()\<close> that returns true leaves it.\<close>

definition propagado :: "crucigrama \<Rightarrow> creador \<Rightarrow> bool" where
  "propagado cw s =
     (separados s \<and> claves_ok cw s \<and>
      (\<forall>x \<in> set (variables cw). \<forall>y \<in> set (vecinos cw x). arco_consistente cw s x y))"

text \<open>The dictionary \<^verbatim>\<open>self.dominios\<close> with the contents of its sets.\<close>

definition contenidos :: "creador \<Rightarrow> (variable \<times> string list) list" where
  "contenidos s = map (\<lambda>(v, r). (v, heap s r)) (dominios s)"

definition observar ::
  "(err + 'a \<times> creador) option \<Rightarrow> (err + 'a \<times> (variable \<times> string list) list) option"
where
  "observar r = map_option (map_sum id (\<lambda>(x, s). (x, contenidos s))) r"

text \<open>What a method returns, without the store.\<close>

definition resultado :: "(err + 'a \<times> creador) option \<Rightarrow> (err + 'a) option" where
  "resultado r = map_option (map_sum id fst) r"

text \<open>
  A slot of two cells across and a slot of three cells down that share their first cell.
\<close>

definition var_A :: variable where
  "var_A = Variable 0 0 DERECHA 2"

definition var_B :: variable where
  "var_B = Variable 0 0 ABAJO 3"

definition cruce :: "string list \<Rightarrow> crucigrama" where
  "cruce ws =
     \<lparr>variables = [var_A, var_B], words = ws,
      solapamientos =
        (\<lambda>p. if p = (var_A, var_B) \<or> p = (var_B, var_A) then Some (0, 0) else None)\<rparr>"

text \<open>The store of the example after \<^verbatim>\<open>__init__\<close> and \<^verbatim>\<open>consistencia_nodo\<close>.\<close>

definition estado_nodo :: "string list \<Rightarrow> creador" where
  "estado_nodo ws = consistencia_nodo (creador_init (cruce ws))"

section \<open>Properties\<close>

subsection \<open>Node consistency\<close>

lemma map_fst_update_key:
  "map_of al k \<noteq> None \<Longrightarrow> map fst (AList.update k v al) = map fst al"
  by (induction al) auto

lemma set_update_cases:
  "p \<in> set (AList.update k v al) \<Longrightarrow> p = (k, v) \<or> p \<in> set al"
  by (induction al) (auto split: if_splits)

lemma almacen_ok_ref: "almacen_ok s \<Longrightarrow> map_of (dominios s) v = Some r \<Longrightarrow> r < libre s"
  by (auto simp: almacen_ok_def list_all_iff dest!: map_of_SomeD)

lemma paso_keys: "map fst (dominios (consistencia_nodo_paso var s)) = map fst (dominios s)"
  by (auto simp: consistencia_nodo_paso_def nuevo_conjunto_def asignar_dominio_def
      map_fst_update_key split: option.splits)

lemma paso_ok: "almacen_ok s \<Longrightarrow> almacen_ok (consistencia_nodo_paso var s)"
  by (auto simp: consistencia_nodo_paso_def nuevo_conjunto_def asignar_dominio_def almacen_ok_def
      list_all_iff split: option.splits dest!: set_update_cases)

lemma paso_dominio:
  "almacen_ok s \<Longrightarrow> dominio (consistencia_nodo_paso var s) v =
     (if v = var then map_option (filter (\<lambda>palabra. length palabra = longitud var)) (dominio s v)
      else dominio s v)"
  by (auto simp: consistencia_nodo_paso_def nuevo_conjunto_def asignar_dominio_def dominio_def
      update_conv' dest: almacen_ok_ref split: option.splits)
     (cases "map_of (dominios s) v"; auto dest: almacen_ok_ref)

lemma fold_paso:
  "almacen_ok s \<Longrightarrow>
   almacen_ok (fold consistencia_nodo_paso ks s) \<and>
   map fst (dominios (fold consistencia_nodo_paso ks s)) = map fst (dominios s) \<and>
   dominio (fold consistencia_nodo_paso ks s) v =
     (if v \<in> set ks then map_option (filter (\<lambda>palabra. length palabra = longitud v)) (dominio s v)
      else dominio s v)"
proof (induction ks arbitrary: s)
  case Nil
  then show ?case by simp
next
  case (Cons k ks)
  from Cons.prems have ok: "almacen_ok (consistencia_nodo_paso k s)" by (rule paso_ok)
  show ?case
    using Cons.IH [OF ok] paso_dominio [OF Cons.prems, of k v] paso_keys [of k s]
    by (auto simp: option.map_comp comp_def)
qed

lemma consistencia_nodo_ok: "almacen_ok s \<Longrightarrow> almacen_ok (consistencia_nodo s)"
  using fold_paso [of s "map fst (dominios s)"] by (simp add: consistencia_nodo_def)

text \<open>
  Claim C6.  After \<^verbatim>\<open>consistencia_nodo\<close> the dictionary has the keys it had, in the
  same order, and the domain of every variable \<open>v\<close> is its former domain without the
  words whose length is not \<open>longitud v\<close>: the words that stay have the length of the
  variable, the words of that length all stay, and nothing else changes.
\<close>

theorem consistencia_nodo_post:
  assumes "almacen_ok s"
  shows "map fst (dominios (consistencia_nodo s)) = map fst (dominios s) \<and>
    dominio (consistencia_nodo s) v =
      map_option (filter (\<lambda>palabra. length palabra = longitud v)) (dominio s v) \<and>
    (\<forall>d. dominio (consistencia_nodo s) v = Some d \<longrightarrow>
       (\<forall>palabra \<in> set d. length palabra = longitud v))"
proof -
  have "v \<notin> set (map fst (dominios s)) \<Longrightarrow> dominio s v = None"
    by (simp add: dominio_def map_of_eq_None_iff)
  then have "map fst (dominios (consistencia_nodo s)) = map fst (dominios s) \<and>
    dominio (consistencia_nodo s) v =
      map_option (filter (\<lambda>palabra. length palabra = longitud v)) (dominio s v)"
    using fold_paso [OF assms, of "map fst (dominios s)" v]
    by (auto simp: consistencia_nodo_def)
  then show ?thesis by auto
qed

theorem consistencia_nodo_post_witness:
  "almacen_ok (creador_init (cruce [''ab'', ''cd'', ''cxx'', ''eyy''])) \<and>
   contenidos (consistencia_nodo (creador_init (cruce [''ab'', ''cd'', ''cxx'', ''eyy''])))
     = [(var_A, [''ab'', ''cd'']), (var_B, [''cxx'', ''eyy''])] \<and>
   dominio (consistencia_nodo (creador_init (cruce [''ab'', ''cd'', ''cxx'', ''eyy'']))) var_B =
     map_option (filter (\<lambda>palabra. length palabra = longitud var_B))
       (dominio (creador_init (cruce [''ab'', ''cd'', ''cxx'', ''eyy''])) var_B)"
proof -
  have h: "almacen_ok (creador_init (cruce [''ab'', ''cd'', ''cxx'', ''eyy'']))"
    by code_simp
  have c: "contenidos (consistencia_nodo (creador_init (cruce [''ab'', ''cd'', ''cxx'', ''eyy''])))
     = [(var_A, [''ab'', ''cd'']), (var_B, [''cxx'', ''eyy''])]"
    by code_simp
  from consistencia_nodo_post [OF h, of var_B] h c show ?thesis by blast
qed

subsection \<open>Revision of one arc\<close>

lemma cumple_restriccion_ok:
  "i < length px \<Longrightarrow> \<forall>py \<in> set dy. j < length py \<Longrightarrow>
   cumple_restriccion i j px dy = Inr (soportada i j dy px)"
  by (induction dy) (auto simp: soportada_def)

lemma revisar_bucle_filter:
  assumes "map_of (dominios s) x = Some rx" "map_of (dominios s) y = Some ry" "rx \<noteq> ry"
    and "\<forall>w \<in> set pxs. i < length w" "\<forall>w \<in> set (heap s ry). j < length w"
  shows "revisar_bucle i j x y pxs rv s =
    Inr (rv \<or> (\<exists>w \<in> set pxs. \<not> soportada i j (heap s ry) w),
         s\<lparr>heap := (heap s)(rx := filter (\<lambda>w. w \<notin> set pxs \<or> soportada i j (heap s ry) w) (heap s rx))\<rparr>)"
  using assms
proof (induction pxs arbitrary: rv s)
  case Nil
  then show ?case by simp
next
  case (Cons px pxs)
  let ?sop = "soportada i j (heap s ry)"
  have c: "cumple_restriccion i j px (heap s ry) = Inr (?sop px)"
    using Cons.prems by (intro cumple_restriccion_ok) auto
  show ?case
  proof (cases "?sop px")
    case True
    have "revisar_bucle i j x y (px # pxs) rv s = revisar_bucle i j x y pxs rv s"
      using Cons.prems c True by simp
    also have "\<dots> = Inr (rv \<or> (\<exists>w \<in> set pxs. \<not> ?sop w),
         s\<lparr>heap := (heap s)(rx := filter (\<lambda>w. w \<notin> set pxs \<or> ?sop w) (heap s rx))\<rparr>)"
      using Cons.prems by (intro Cons.IH) auto
    also have "filter (\<lambda>w. w \<notin> set pxs \<or> ?sop w) (heap s rx) =
        filter (\<lambda>w. w \<notin> set (px # pxs) \<or> ?sop w) (heap s rx)"
      using True by (intro filter_cong) auto
    also have "(rv \<or> (\<exists>w \<in> set pxs. \<not> ?sop w)) = (rv \<or> (\<exists>w \<in> set (px # pxs). \<not> ?sop w))"
      using True by simp
    finally show ?thesis .
  next
    case False
    let ?s1 = "s\<lparr>heap := (heap s)(rx := removeAll px (heap s rx))\<rparr>"
    have h1: "heap ?s1 ry = heap s ry" using Cons.prems by simp
    have "revisar_bucle i j x y (px # pxs) rv s = revisar_bucle i j x y pxs True ?s1"
      using Cons.prems c False by simp
    also have "\<dots> = Inr (True \<or> (\<exists>w \<in> set pxs. \<not> soportada i j (heap ?s1 ry) w),
         ?s1\<lparr>heap := (heap ?s1)(rx := filter (\<lambda>w. w \<notin> set pxs \<or> soportada i j (heap ?s1 ry) w) (heap ?s1 rx))\<rparr>)"
      using Cons.prems by (intro Cons.IH) auto
    also have "filter (\<lambda>w. w \<notin> set pxs \<or> soportada i j (heap ?s1 ry) w) (heap ?s1 rx) =
        filter (\<lambda>w. w \<notin> set (px # pxs) \<or> ?sop w) (heap s rx)"
      using False unfolding h1 by (auto simp: removeAll_filter_not_eq intro: filter_cong)
    also have "?s1\<lparr>heap := (heap ?s1)(rx := filter (\<lambda>w. w \<notin> set (px # pxs) \<or> ?sop w) (heap s rx))\<rparr>
        = s\<lparr>heap := (heap s)(rx := filter (\<lambda>w. w \<notin> set (px # pxs) \<or> ?sop w) (heap s rx))\<rparr>"
      by simp
    also have "(True \<or> (\<exists>w \<in> set pxs. \<not> soportada i j (heap ?s1 ry) w)) =
        (rv \<or> (\<exists>w \<in> set (px # pxs). \<not> ?sop w))"
      using False by simp
    finally show ?thesis .
  qed
qed

lemma separados_inj:
  "separados s \<Longrightarrow> map_of (dominios s) v = Some r \<Longrightarrow> map_of (dominios s) w = Some r \<Longrightarrow> v = w"
  unfolding separados_def
  by (metis distinct_map inj_on_def map_of_SomeD snd_conv fst_conv)

text \<open>
  Claim C5.  For variables \<open>x\<close> and \<open>y\<close> of the store: without overlap
  \<^verbatim>\<open>revisar(x, y)\<close> returns false and changes nothing.  With the overlap \<open>(i, j)\<close>,
  when the words of both domains are long enough for these positions, it leaves in the
  domain of \<open>x\<close> the words that have a partner in the domain of \<open>y\<close> as it is at the
  call, removes the others, changes the domain of no other variable, and returns true
  exactly when some word was removed.
\<close>

theorem revisar_post:
  assumes "separados s" and "dominio s x = Some dx" and "dominio s y = Some dy"
  shows "(solapamientos cw (x, y) = None \<longrightarrow> revisar cw x y s = Inr (False, s)) \<and>
    (\<forall>i j. solapamientos cw (x, y) = Some (i, j) \<and> x \<noteq> y \<and>
        (\<forall>w \<in> set dx. i < length w) \<and> (\<forall>w \<in> set dy. j < length w) \<longrightarrow>
      (\<exists>s'. revisar cw x y s = Inr (\<exists>w \<in> set dx. \<not> soportada i j dy w, s') \<and>
         dominio s' x = Some (filter (soportada i j dy) dx) \<and>
         (\<forall>z. z \<noteq> x \<longrightarrow> dominio s' z = dominio s z) \<and>
         dominios s' = dominios s))"
proof (intro conjI allI impI)
  show "revisar cw x y s = Inr (False, s)" if "solapamientos cw (x, y) = None"
    using that by (simp add: revisar_def)
next
  fix i j
  assume a: "solapamientos cw (x, y) = Some (i, j) \<and> x \<noteq> y \<and>
        (\<forall>w \<in> set dx. i < length w) \<and> (\<forall>w \<in> set dy. j < length w)"
  from assms(2) obtain rx where rx: "map_of (dominios s) x = Some rx" "heap s rx = dx"
    by (auto simp: dominio_def)
  from assms(3) obtain ry where ry: "map_of (dominios s) y = Some ry" "heap s ry = dy"
    by (auto simp: dominio_def)
  from a rx ry separados_inj [OF assms(1)] have ne: "rx \<noteq> ry" by blast
  let ?s' = "s\<lparr>heap := (heap s)(rx := filter (\<lambda>w. w \<notin> set dx \<or> soportada i j dy w) dx)\<rparr>"
  have f: "filter (\<lambda>w. w \<notin> set dx \<or> soportada i j dy w) dx = filter (soportada i j dy) dx"
    by (intro filter_cong) auto
  have r: "revisar cw x y s = Inr (\<exists>w \<in> set dx. \<not> soportada i j dy w, ?s')"
    using a rx ry revisar_bucle_filter [of s x rx y ry dx i j False] ne
    by (simp add: revisar_def)
  have o: "dominio ?s' z = dominio s z" if "z \<noteq> x" for z
  proof (cases "map_of (dominios s) z")
    case None
    then show ?thesis by (simp add: dominio_def)
  next
    case (Some rz)
    with that rx separados_inj [OF assms(1)] have "rz \<noteq> rx" by blast
    with Some show ?thesis by (simp add: dominio_def)
  qed
  show "\<exists>s'. revisar cw x y s = Inr (\<exists>w \<in> set dx. \<not> soportada i j dy w, s') \<and>
         dominio s' x = Some (filter (soportada i j dy) dx) \<and>
         (\<forall>z. z \<noteq> x \<longrightarrow> dominio s' z = dominio s z) \<and>
         dominios s' = dominios s"
    using r o rx f by (intro exI [of _ ?s']) (simp add: dominio_def)
qed

theorem revisar_post_witness:
  "separados (consistencia_nodo (creador_init (cruce [''ab'', ''cd'', ''cxx'', ''eyy'']))) \<and>
   dominio (consistencia_nodo (creador_init (cruce [''ab'', ''cd'', ''cxx'', ''eyy'']))) var_B
     = Some [''cxx'', ''eyy''] \<and>
   dominio (consistencia_nodo (creador_init (cruce [''ab'', ''cd'', ''cxx'', ''eyy'']))) var_A
     = Some [''ab'', ''cd''] \<and>
   solapamientos (cruce [''ab'', ''cd'', ''cxx'', ''eyy'']) (var_B, var_A) = Some (0, 0) \<and>
   solapamientos (cruce [''ab'', ''cd'', ''cxx'', ''eyy'']) (var_A, var_A) = None \<and>
   var_B \<noteq> var_A \<and>
   revisar (cruce [''ab'', ''cd'', ''cxx'', ''eyy'']) var_A var_A
       (consistencia_nodo (creador_init (cruce [''ab'', ''cd'', ''cxx'', ''eyy''])))
     = Inr (False, consistencia_nodo (creador_init (cruce [''ab'', ''cd'', ''cxx'', ''eyy'']))) \<and>
   (\<exists>s'. revisar (cruce [''ab'', ''cd'', ''cxx'', ''eyy'']) var_B var_A
         (consistencia_nodo (creador_init (cruce [''ab'', ''cd'', ''cxx'', ''eyy''])))
       = Inr (True, s') \<and>
      dominio s' var_B = Some [''cxx''] \<and> dominio s' var_A = Some [''ab'', ''cd''])"
proof -
  let ?cw = "cruce [''ab'', ''cd'', ''cxx'', ''eyy'']"
  let ?s = "consistencia_nodo (creador_init ?cw)"
  have sep: "separados ?s" by code_simp
  have dB: "dominio ?s var_B = Some [''cxx'', ''eyy'']" by code_simp
  have dA: "dominio ?s var_A = Some [''ab'', ''cd'']" by code_simp
  have oBA: "solapamientos ?cw (var_B, var_A) = Some (0, 0)" by code_simp
  have oAA: "solapamientos ?cw (var_A, var_A) = None" by code_simp
  have ne: "var_B \<noteq> var_A" by code_simp
  have sopc: "soportada 0 0 [''ab'', ''cd''] ''cxx''" by (simp add: soportada_def)
  have sope: "\<not> soportada 0 0 [''ab'', ''cd''] ''eyy''" by (simp add: soportada_def)
  from revisar_post [OF sep dA dA, of ?cw] oAA
  have r1: "revisar ?cw var_A var_A ?s = Inr (False, ?s)" by blast
  from revisar_post [OF sep dB dA, of ?cw] oBA ne
  obtain s' where "revisar ?cw var_B var_A ?s
        = Inr (\<exists>w \<in> set [''cxx'', ''eyy'']. \<not> soportada 0 0 [''ab'', ''cd''] w, s')"
    and "dominio s' var_B = Some (filter (soportada 0 0 [''ab'', ''cd'']) [''cxx'', ''eyy''])"
    and "\<forall>z. z \<noteq> var_B \<longrightarrow> dominio s' z = dominio ?s z"
    by fastforce
  with sopc sope dA ne have "revisar ?cw var_B var_A ?s = Inr (True, s') \<and>
      dominio s' var_B = Some [''cxx''] \<and> dominio s' var_A = Some [''ab'', ''cd'']"
    by auto
  with sep dB dA oBA oAA ne r1 show ?thesis by blast
qed

subsection \<open>Heuristics\<close>

lemma con_claves_total:
  "\<forall>x \<in> set xs. g x = Inr (f x) \<Longrightarrow> con_claves g xs = Inr (map (\<lambda>x. (x, f x)) xs)"
  by (induction xs) auto

lemma insort_key_decorado:
  "insort_key snd (x, f x) (map (\<lambda>x. (x, f x)) ys) = map (\<lambda>x. (x, f x)) (insort_key f x ys)"
  by (induction ys) auto

lemma sort_key_decorado:
  "sort_key snd (map (\<lambda>x. (x, f x)) xs) = map (\<lambda>x. (x, f x)) (sort_key f xs)"
  by (induction xs) (auto simp: insort_key_decorado)

lemma sorted_py_total:
  "\<forall>x \<in> set xs. g x = Inr (f x) \<Longrightarrow> sorted_py g xs = Inr (sort_key f xs)"
  using con_claves_total [of xs g f]
  by (simp add: sorted_py_def sort_key_decorado comp_def)

lemma conflictos_cuenta:
  "\<forall>n \<in> set ns. map_of asig n = None \<longrightarrow> dominio s n \<noteq> None \<Longrightarrow>
   conflictos s asig ns palabra =
     Inr (length (filter (\<lambda>vecino. map_of asig vecino = None \<and>
                (\<exists>d. dominio s vecino = Some d \<and> palabra \<in> set d)) ns))"
  by (induction ns) (auto simp: dominio_def split: option.splits)

text \<open>
  Claim C9.  When \<open>var\<close> and its unassigned neighbours are keys of the store,
  \<^verbatim>\<open>ordenar_valores_dominio(var, asignacion)\<close> returns the words of the domain of
  \<open>var\<close>, each as often as it is there, in ascending order of their conflict count, and
  words with the same count keep the order they have in the domain.
\<close>

theorem ordenar_valores_dominio_post:
  assumes "dominio s var = Some d"
    and "\<forall>n \<in> set (vecinos cw var). map_of asig n = None \<longrightarrow> dominio s n \<noteq> None"
  shows "\<exists>vs. ordenar_valores_dominio cw var asig s = Inr vs \<and>
      mset vs = mset d \<and>
      sorted (map (num_conflictos cw s asig var) vs) \<and>
      (\<forall>k. filter (\<lambda>w. num_conflictos cw s asig var w = k) vs =
           filter (\<lambda>w. num_conflictos cw s asig var w = k) d)"
proof -
  from assms(1) obtain r where r: "map_of (dominios s) var = Some r" "heap s r = d"
    by (auto simp: dominio_def)
  have "\<forall>w \<in> set d. conflictos s asig (vecinos cw var) w = Inr (num_conflictos cw s asig var w)"
    using conflictos_cuenta [OF assms(2)] by (simp add: num_conflictos_def)
  then have "ordenar_valores_dominio cw var asig s = Inr (sort_key (num_conflictos cw s asig var) d)"
    using r by (simp add: ordenar_valores_dominio_def sorted_py_total)
  then show ?thesis
    by (simp add: sort_key_stable)
qed

theorem ordenar_valores_dominio_post_witness:
  "dominio (estado_nodo [''ab'', ''cd'', ''cxx'', ''eyy'']) var_A = Some [''ab'', ''cd''] \<and>
   vecinos (cruce [''ab'', ''cd'', ''cxx'', ''eyy'']) var_A = [var_B] \<and>
   dominio (estado_nodo [''ab'', ''cd'', ''cxx'', ''eyy'']) var_B = Some [''cxx'', ''eyy''] \<and>
   ordenar_valores_dominio (cruce [''ab'', ''cd'', ''cxx'', ''eyy'']) var_A []
       (estado_nodo [''ab'', ''cd'', ''cxx'', ''eyy'']) = Inr [''ab'', ''cd''] \<and>
   (\<exists>vs. ordenar_valores_dominio (cruce [''ab'', ''cd'', ''cxx'', ''eyy'']) var_A []
         (estado_nodo [''ab'', ''cd'', ''cxx'', ''eyy'']) = Inr vs \<and>
      mset vs = mset [''ab'', ''cd''] \<and>
      sorted (map (num_conflictos (cruce [''ab'', ''cd'', ''cxx'', ''eyy''])
                     (estado_nodo [''ab'', ''cd'', ''cxx'', ''eyy'']) [] var_A) vs) \<and>
      (\<forall>k. filter (\<lambda>w. num_conflictos (cruce [''ab'', ''cd'', ''cxx'', ''eyy''])
                     (estado_nodo [''ab'', ''cd'', ''cxx'', ''eyy'']) [] var_A w = k) vs =
           filter (\<lambda>w. num_conflictos (cruce [''ab'', ''cd'', ''cxx'', ''eyy''])
                     (estado_nodo [''ab'', ''cd'', ''cxx'', ''eyy'']) [] var_A w = k)
             [''ab'', ''cd'']))"
proof -
  let ?cw = "cruce [''ab'', ''cd'', ''cxx'', ''eyy'']"
  let ?s = "estado_nodo [''ab'', ''cd'', ''cxx'', ''eyy'']"
  have h1: "dominio ?s var_A = Some [''ab'', ''cd'']" by code_simp
  have n: "vecinos ?cw var_A = [var_B]" by code_simp
  have dB: "dominio ?s var_B = Some [''cxx'', ''eyy'']" by code_simp
  have h2: "\<forall>n \<in> set (vecinos ?cw var_A).
      map_of ([]::asignacion) n = None \<longrightarrow> dominio ?s n \<noteq> None"
    using n dB by simp
  have v: "ordenar_valores_dominio ?cw var_A [] ?s = Inr [''ab'', ''cd'']" by code_simp
  show ?thesis by (intro conjI h1 n dB v ordenar_valores_dominio_post [OF h1 h2])
qed

lemma hd_insort_key:
  "hd (insort_key f x ys) = (if ys = [] \<or> f x \<le> f (hd ys) then x else hd ys)"
  by (cases ys) auto

lemma hd_sort_key_primero:
  "xs \<noteq> [] \<Longrightarrow> \<exists>pre post. xs = pre @ hd (sort_key f xs) # post \<and>
     (\<forall>u \<in> set pre. f (hd (sort_key f xs)) < f u) \<and>
     (\<forall>u \<in> set post. f (hd (sort_key f xs)) \<le> f u)"
proof (induction xs)
  case Nil
  then show ?case by simp
next
  case (Cons x xs)
  show ?case
  proof (cases "xs = []")
    case True
    then show ?thesis by (intro exI [of _ "[]"]) simp
  next
    case False
    let ?h = "hd (sort_key f xs)"
    from Cons.IH [OF False] obtain pre post where
      p: "xs = pre @ ?h # post" "\<forall>u \<in> set pre. f ?h < f u" "\<forall>u \<in> set post. f ?h \<le> f u"
      by blast
    have ne: "sort_key f xs \<noteq> []" using False by (metis length_sort length_0_conv)
    show ?thesis
    proof (cases "f x \<le> f ?h")
      case True
      then have h: "hd (sort_key f (x # xs)) = x" by (simp add: hd_insort_key)
      have "\<forall>u \<in> set xs. f x \<le> f u"
      proof
        fix u assume "u \<in> set xs"
        then have "u \<in> set pre \<or> u = ?h \<or> u \<in> set post" by (subst (asm) p(1)) auto
        with p(2,3) True show "f x \<le> f u" by fastforce
      qed
      then show ?thesis unfolding h by (intro exI [of _ "[]"] exI [of _ xs]) simp
    next
      case False
      then have h: "hd (sort_key f (x # xs)) = ?h" using ne by (simp add: hd_insort_key)
      have "x # xs = (x # pre) @ ?h # post" using p(1) by simp
      moreover have "\<forall>u \<in> set (x # pre). f ?h < f u" using p(2) False by auto
      ultimately show ?thesis unfolding h using p(3) by blast
    qed
  qed
qed

text \<open>
  Claim C8.  When some variable is not assigned and the unassigned variables are keys of
  the store, \<^verbatim>\<open>seleccionar_variable_no_asignada\<close> returns an unassigned variable
  whose domain, as the store has it at the call, is the smallest among the unassigned
  variables, with the most neighbours among those of that size; it is the first such
  variable in iteration order, every candidate before it being strictly worse.
\<close>

theorem seleccionar_variable_no_asignada_post:
  assumes "\<forall>v \<in> set (variables cw). map_of asig v = None \<longrightarrow> dominio s v \<noteq> None"
    and "\<exists>v \<in> set (variables cw). map_of asig v = None"
  shows "\<exists>v pre post. seleccionar_variable_no_asignada cw asig s = Inr v \<and>
      v \<in> set (variables cw) \<and> map_of asig v = None \<and>
      (\<forall>u \<in> set (variables cw). map_of asig u = None \<longrightarrow>
           tam s v < tam s u \<or> (tam s v = tam s u \<and> grado cw u \<le> grado cw v)) \<and>
      filter (\<lambda>v. map_of asig v = None) (variables cw) = pre @ v # post \<and>
      (\<forall>u \<in> set pre. tam s v < tam s u \<or> (tam s v = tam s u \<and> grado cw u < grado cw v))"
proof -
  let ?na = "filter (\<lambda>v. map_of asig v = None) (variables cw)"
  let ?f = "\<lambda>v. (tam s v, - int (grado cw v))"
  have "\<forall>v \<in> set ?na. clave_seleccion cw s v = Inr (?f v)"
    using assms(1) by (auto simp: clave_seleccion_def tam_def grado_def dominio_def split: option.splits)
  then have so: "sorted_py (clave_seleccion cw s) ?na = Inr (sort_key ?f ?na)"
    by (rule sorted_py_total)
  have ne: "?na \<noteq> []" using assms(2) by (auto simp: filter_empty_conv)
  then have ne': "sort_key ?f ?na \<noteq> []" by (metis length_sort length_0_conv)
  let ?v = "hd (sort_key ?f ?na)"
  have sel: "seleccionar_variable_no_asignada cw asig s = Inr ?v"
    using so ne' by (cases "sort_key ?f ?na") (simp_all add: seleccionar_variable_no_asignada_def)
  from hd_sort_key_primero [OF ne, of ?f] obtain pre post where
    p: "?na = pre @ ?v # post" "\<forall>u \<in> set pre. ?f ?v < ?f u" "\<forall>u \<in> set post. ?f ?v \<le> ?f u"
    by blast
  have vin: "?v \<in> set ?na" by (subst p(1)) simp
  have min: "?f ?v \<le> ?f u" if "u \<in> set ?na" for u
  proof -
    from that have "u \<in> set pre \<or> u = ?v \<or> u \<in> set post" by (subst (asm) p(1)) auto
    with p(2,3) show ?thesis by fastforce
  qed
  have a: "\<forall>u \<in> set (variables cw). map_of asig u = None \<longrightarrow>
           tam s ?v < tam s u \<or> (tam s ?v = tam s u \<and> grado cw u \<le> grado cw ?v)"
  proof (intro ballI impI)
    fix u assume "u \<in> set (variables cw)" "map_of asig u = None"
    then have "u \<in> set ?na" by simp
    from min [OF this] show "tam s ?v < tam s u \<or> (tam s ?v = tam s u \<and> grado cw u \<le> grado cw ?v)"
      unfolding less_eq_prod_def by (simp; linarith)
  qed
  have b: "\<forall>u \<in> set pre. tam s ?v < tam s u \<or> (tam s ?v = tam s u \<and> grado cw u < grado cw ?v)"
  proof
    fix u assume "u \<in> set pre"
    with p(2) have "?f ?v < ?f u" by blast
    then show "tam s ?v < tam s u \<or> (tam s ?v = tam s u \<and> grado cw u < grado cw ?v)"
      unfolding less_prod_def by (simp; linarith)
  qed
  from sel vin a b p(1) show ?thesis by auto
qed

theorem seleccionar_variable_no_asignada_post_witness:
  "contenidos (estado_nodo [''ab'', ''cd'', ''cxx'', ''eyy''])
     = [(var_A, [''ab'', ''cd'']), (var_B, [''cxx'', ''eyy''])] \<and>
   (\<exists>v \<in> set (variables (cruce [''ab'', ''cd'', ''cxx'', ''eyy''])). map_of ([]::asignacion) v = None) \<and>
   seleccionar_variable_no_asignada (cruce [''ab'', ''cd'', ''cxx'', ''eyy'']) []
       (estado_nodo [''ab'', ''cd'', ''cxx'', ''eyy'']) = Inr var_A \<and>
   (\<exists>v pre post.
      seleccionar_variable_no_asignada (cruce [''ab'', ''cd'', ''cxx'', ''eyy'']) []
         (estado_nodo [''ab'', ''cd'', ''cxx'', ''eyy'']) = Inr v \<and>
      v \<in> set (variables (cruce [''ab'', ''cd'', ''cxx'', ''eyy''])) \<and> map_of ([]::asignacion) v = None \<and>
      (\<forall>u \<in> set (variables (cruce [''ab'', ''cd'', ''cxx'', ''eyy''])). map_of ([]::asignacion) u = None \<longrightarrow>
           tam (estado_nodo [''ab'', ''cd'', ''cxx'', ''eyy'']) v
             < tam (estado_nodo [''ab'', ''cd'', ''cxx'', ''eyy'']) u \<or>
           (tam (estado_nodo [''ab'', ''cd'', ''cxx'', ''eyy'']) v
              = tam (estado_nodo [''ab'', ''cd'', ''cxx'', ''eyy'']) u \<and>
            grado (cruce [''ab'', ''cd'', ''cxx'', ''eyy'']) u
              \<le> grado (cruce [''ab'', ''cd'', ''cxx'', ''eyy'']) v)) \<and>
      filter (\<lambda>v. map_of ([]::asignacion) v = None) (variables (cruce [''ab'', ''cd'', ''cxx'', ''eyy'']))
        = pre @ v # post \<and>
      (\<forall>u \<in> set pre.
           tam (estado_nodo [''ab'', ''cd'', ''cxx'', ''eyy'']) v
             < tam (estado_nodo [''ab'', ''cd'', ''cxx'', ''eyy'']) u \<or>
           (tam (estado_nodo [''ab'', ''cd'', ''cxx'', ''eyy'']) v
              = tam (estado_nodo [''ab'', ''cd'', ''cxx'', ''eyy'']) u \<and>
            grado (cruce [''ab'', ''cd'', ''cxx'', ''eyy'']) u
              < grado (cruce [''ab'', ''cd'', ''cxx'', ''eyy'']) v)))"
proof -
  let ?cw = "cruce [''ab'', ''cd'', ''cxx'', ''eyy'']"
  let ?s = "estado_nodo [''ab'', ''cd'', ''cxx'', ''eyy'']"
  have h1: "\<forall>v \<in> set (variables ?cw). map_of ([]::asignacion) v = None \<longrightarrow> dominio ?s v \<noteq> None"
    by code_simp
  have h2: "\<exists>v \<in> set (variables ?cw). map_of ([]::asignacion) v = None" by code_simp
  have v: "seleccionar_variable_no_asignada ?cw [] ?s = Inr var_A" by code_simp
  have c: "contenidos ?s = [(var_A, [''ab'', ''cd'']), (var_B, [''cxx'', ''eyy''])]"
    by code_simp
  show ?thesis by (intro conjI c h2 v seleccionar_variable_no_asignada_post [OF h1 h2])
qed

subsection \<open>Termination of the arc consistency loop\<close>

lemma revisar_bucle_marco:
  "revisar_bucle i j x y pxs rv s = Inr (rv', s') \<Longrightarrow>
   dominios s' = dominios s \<and> libre s' = libre s \<and> (rv \<longrightarrow> rv') \<and>
   (\<forall>r. set (heap s' r) \<subseteq> set (heap s r)) \<and>
   (\<forall>r. length (heap s' r) \<le> length (heap s r)) \<and>
   (\<not> rv' \<longrightarrow> s' = s)"
proof (induction pxs arbitrary: rv s)
  case Nil
  then show ?case by simp
next
  case (Cons px pxs)
  from Cons.prems obtain ry where ry: "map_of (dominios s) y = Some ry"
    by (auto split: option.splits)
  from Cons.prems ry obtain b where b: "cumple_restriccion i j px (heap s ry) = Inr b"
    by (auto split: sum.splits)
  show ?case
  proof (cases b)
    case True
    with Cons.prems ry b have "revisar_bucle i j x y pxs rv s = Inr (rv', s')" by simp
    from Cons.IH [OF this] show ?thesis .
  next
    case False
    with Cons.prems ry b obtain rx where rx: "map_of (dominios s) x = Some rx"
      by (auto split: option.splits)
    let ?s1 = "s\<lparr>heap := (heap s)(rx := removeAll px (heap s rx))\<rparr>"
    from Cons.prems ry b False rx have "revisar_bucle i j x y pxs True ?s1 = Inr (rv', s')"
      by simp
    from Cons.IH [OF this] have ih: "dominios s' = dominios ?s1" "libre s' = libre ?s1" "rv'"
      "\<forall>r. set (heap s' r) \<subseteq> set (heap ?s1 r)" "\<forall>r. length (heap s' r) \<le> length (heap ?s1 r)"
      by auto
    have l: "length (removeAll px (heap s rx)) \<le> length (heap s rx)"
      by (simp add: removeAll_filter_not_eq)
    have a: "\<forall>r. set (heap s' r) \<subseteq> set (heap s r)"
    proof
      fix r
      have "set (heap ?s1 r) \<subseteq> set (heap s r)" by auto
      with ih(4) show "set (heap s' r) \<subseteq> set (heap s r)" by blast
    qed
    have c: "\<forall>r. length (heap s' r) \<le> length (heap s r)"
    proof
      fix r
      have "length (heap ?s1 r) \<le> length (heap s r)" using l by simp
      with ih(5) show "length (heap s' r) \<le> length (heap s r)" using le_trans by blast
    qed
    from ih(1,2,3) a c show ?thesis by simp
  qed
qed

lemma revisar_bucle_estricto:
  assumes "revisar_bucle i j x y pxs False s = Inr (True, s')"
    and "map_of (dominios s) x = Some rx" and "set pxs \<subseteq> set (heap s rx)"
  shows "length (heap s' rx) < length (heap s rx)"
  using assms
proof (induction pxs arbitrary: s)
  case Nil
  then show ?case by simp
next
  case (Cons px pxs)
  from Cons.prems(1) obtain ry where ry: "map_of (dominios s) y = Some ry"
    by (auto split: option.splits)
  from Cons.prems(1) ry obtain b where b: "cumple_restriccion i j px (heap s ry) = Inr b"
    by (auto split: sum.splits)
  show ?case
  proof (cases b)
    case True
    with Cons.prems ry b have "revisar_bucle i j x y pxs False s = Inr (True, s')" by simp
    from Cons.IH [OF this Cons.prems(2)] Cons.prems(3) show ?thesis by simp
  next
    case False
    let ?s1 = "s\<lparr>heap := (heap s)(rx := removeAll px (heap s rx))\<rparr>"
    from Cons.prems ry b False have "revisar_bucle i j x y pxs True ?s1 = Inr (True, s')"
      by simp
    from revisar_bucle_marco [OF this] have "length (heap s' rx) \<le> length (heap ?s1 rx)" by blast
    moreover have "length (removeAll px (heap s rx)) < length (heap s rx)"
      using Cons.prems(3) by (simp add: length_removeAll_less)
    ultimately show ?thesis by simp
  qed
qed

lemma revisar_marco:
  assumes "revisar cw x y s = Inr (rv, s')"
  shows "dominios s' = dominios s \<and> libre s' = libre s \<and>
   (\<forall>r. set (heap s' r) \<subseteq> set (heap s r)) \<and>
   (\<forall>r. length (heap s' r) \<le> length (heap s r)) \<and>
   (\<not> rv \<longrightarrow> s' = s)"
  using assms revisar_bucle_marco
  by (fastforce simp: revisar_def split: option.splits prod.splits)

lemma revisar_estricto:
  assumes "revisar cw x y s = Inr (True, s')"
  shows "\<exists>rx. map_of (dominios s) x = Some rx \<and> length (heap s' rx) < length (heap s rx)"
  using assms revisar_bucle_estricto [of _ _ x y _ s s']
  by (auto simp: revisar_def split: option.splits prod.splits)

lemma sum_list_estricto:
  "\<forall>p \<in> set ps. (f p :: nat) \<le> g p \<Longrightarrow> \<exists>p \<in> set ps. f p < g p \<Longrightarrow>
   sum_list (map f ps) < sum_list (map g ps)"
proof (induction ps)
  case Nil
  then show ?case by simp
next
  case (Cons p ps)
  have le: "sum_list (map f ps) \<le> sum_list (map g ps)"
    using Cons.prems(1) by (intro sum_list_mono) simp
  show ?case
  proof (cases "f p < g p")
    case True
    with le show ?thesis by simp
  next
    case False
    with Cons.prems have "\<exists>p \<in> set ps. f p < g p" by auto
    with Cons.IH Cons.prems(1) have "sum_list (map f ps) < sum_list (map g ps)" by simp
    moreover have "f p \<le> g p" using Cons.prems(1) by simp
    ultimately show ?thesis by simp
  qed
qed

lemma revisar_peso_le: "revisar cw x y s = Inr (rv, s') \<Longrightarrow> peso s' \<le> peso s"
  using revisar_marco [of cw x y s rv s']
  by (auto simp: peso_def intro!: sum_list_mono)

lemma revisar_peso_less: "revisar cw x y s = Inr (True, s') \<Longrightarrow> peso s' < peso s"
proof -
  assume a: "revisar cw x y s = Inr (True, s')"
  from revisar_marco [OF a] have m: "dominios s' = dominios s"
    "\<forall>r. length (heap s' r) \<le> length (heap s r)" by auto
  from revisar_estricto [OF a] obtain rx where
    rx: "map_of (dominios s) x = Some rx" "length (heap s' rx) < length (heap s rx)" by blast
  from rx(1) have "(x, rx) \<in> set (dominios s)" by (rule map_of_SomeD)
  with rx(2) have "\<exists>p \<in> set (dominios s). length (heap s' (snd p)) < length (heap s (snd p))"
    by force
  with m show ?thesis unfolding peso_def by (auto intro!: sum_list_estricto)
qed

lemma ac3_bucle_termina: "\<exists>r. ac3_bucle cw arcs s = Some r"
proof (induction "(peso s, length arcs)" arbitrary: arcs s
    rule: wf_induct_rule [OF wf_lex_prod [OF wf_less_than wf_less_than]])
  case less: 1
  show ?case
  proof (cases "arcs = []")
    case True
    then show ?thesis by (subst ac3_bucle.simps) simp
  next
    case False
    obtain x y where xy: "last arcs = (x, y)" by (cases "last arcs")
    show ?thesis
    proof (cases "revisar cw x y s")
      case (Inl e)
      with False xy show ?thesis by (subst ac3_bucle.simps) simp
    next
      case (Inr p)
      obtain rv s' where p: "p = (rv, s')" by (cases p)
      show ?thesis
      proof (cases rv)
        case True
        with Inr p have "peso s' < peso s" by (intro revisar_peso_less) simp
        then have "\<exists>r. ac3_bucle cw
            (butlast arcs @ map (\<lambda>z. (z, x)) (removeAll y (vecinos cw x))) s' = Some r"
          by (intro less) simp
        with False xy Inr p True show ?thesis
          by (subst ac3_bucle.simps) (simp split: option.splits)
      next
        case rvF: False
        with Inr p have "peso s' \<le> peso s" by (intro revisar_peso_le) simp
        moreover have "length (butlast arcs) < length arcs" using False by simp
        ultimately have "\<exists>r. ac3_bucle cw (butlast arcs) s' = Some r"
          by (intro less) auto
        with False xy Inr p rvF show ?thesis
          by (subst ac3_bucle.simps) simp
      qed
    qed
  qed
qed

text \<open>
  Claim C7.  \<^verbatim>\<open>ac3\<close> returns, whatever the puzzle, the store and the initial list of
  arcs (the list of all arcs when none is given): its result is never the \<open>None\<close> of a
  loop that runs forever.  A revision that removes a word makes the number of words in
  the domains smaller, and a revision that removes nothing leaves it as it is and makes
  the list of arcs shorter.
\<close>

theorem ac3_termina: "\<exists>r. ac3 cw arcs s = Some r"
  unfolding ac3_def by (rule ac3_bucle_termina)

subsection \<open>Where the store is left changed\<close>

text \<open>
  Claim C4.  \<^verbatim>\<open>ac3\<close> answers true only for a store without empty domain, as its
  docstring has it.  The method looks at a domain only after a revision that removed a
  word from it, so it does not hold for domains that are empty from the start: with the
  vocabulary \<open>abcd\<close> no word fits the slots of the example, both domains are empty after
  \<^verbatim>\<open>consistencia_nodo\<close>, and \<^verbatim>\<open>ac3()\<close> returns true.
\<close>

theorem ac3_true_con_dominios_vacios:
  "contenidos (estado_nodo [''abcd'']) = [(var_A, []), (var_B, [])] \<and>
   observar (ac3 (cruce [''abcd'']) None (estado_nodo [''abcd'']))
     = Some (Inr (True, [(var_A, []), (var_B, [])]))"
  by code_simp

text \<open>
  Claim C2.  \<^verbatim>\<open>inferencia\<close> reports an emptied domain without leaving reductions in
  the store.  The method revises through \<^verbatim>\<open>revisar\<close>, which removes words from the
  sets of \<^verbatim>\<open>self.dominios\<close> themselves, so it does not hold: with the vocabulary
  \<open>ab\<close>, \<open>cxx\<close>, \<open>eyy\<close> and the first slot assigned \<open>ab\<close>, the method returns
  \<^verbatim>\<open>None\<close> and the domain of the second slot, \<open>cxx\<close> and \<open>eyy\<close> before the call,
  is empty after it; so it is after \<^verbatim>\<open>backtrack\<close> has tried that value and
  returned \<^verbatim>\<open>None\<close>.
\<close>

theorem inferencia_wipeout_deja_reducciones:
  "contenidos (estado_nodo [''ab'', ''cxx'', ''eyy''])
     = [(var_A, [''ab'']), (var_B, [''cxx'', ''eyy''])] \<and>
   observar (inferencia (cruce [''ab'', ''cxx'', ''eyy'']) [(var_A, ''ab'')] var_A
               (estado_nodo [''ab'', ''cxx'', ''eyy'']))
     = Some (Inr (None, [(var_A, [''ab'']), (var_B, [])])) \<and>
   observar (backtrack 3 (cruce [''ab'', ''cxx'', ''eyy'']) []
               (estado_nodo [''ab'', ''cxx'', ''eyy'']))
     = Some (Inr (None, [(var_A, [''ab'']), (var_B, [])]))"
  by code_simp

text \<open>
  Claim C1.  After a branch of \<^verbatim>\<open>backtrack\<close> has failed, the domains that its
  inference touched are what they were before the branch.  The loop after the failed
  recursive call stores the sets of \<^verbatim>\<open>inferences\<close> again, which are the domains
  after the inference, so it does not hold: with the vocabulary \<open>ab\<close>, \<open>cd\<close>, \<open>cxx\<close>,
  \<open>eyy\<close> the search takes the first slot and tries \<open>ab\<close> first; the assignment is
  consistent, the inference removes \<open>eyy\<close> from the domain of the second slot, the
  recursive call fails, and when the branch is left that domain is \<open>cxx\<close> alone.
\<close>

theorem backtrack_rama_fallida_no_restaura:
  "contenidos (estado_nodo [''ab'', ''cd'', ''cxx'', ''eyy''])
     = [(var_A, [''ab'', ''cd'']), (var_B, [''cxx'', ''eyy''])] \<and>
   seleccionar_variable_no_asignada (cruce [''ab'', ''cd'', ''cxx'', ''eyy'']) []
       (estado_nodo [''ab'', ''cd'', ''cxx'', ''eyy'']) = Inr var_A \<and>
   ordenar_valores_dominio (cruce [''ab'', ''cd'', ''cxx'', ''eyy'']) var_A []
       (estado_nodo [''ab'', ''cd'', ''cxx'', ''eyy'']) = Inr [''ab'', ''cd''] \<and>
   consistencia (cruce [''ab'', ''cd'', ''cxx'', ''eyy'']) [(var_A, ''ab'')] = Inr True \<and>
   map_option (map_sum id (\<lambda>(inferences, s). (map_option (map (\<lambda>(v, r). (v, heap s r))) inferences, contenidos s)))
     (inferencia (cruce [''ab'', ''cd'', ''cxx'', ''eyy'']) [(var_A, ''ab'')] var_A
        (estado_nodo [''ab'', ''cd'', ''cxx'', ''eyy'']))
     = Some (Inr (Some [(var_B, [''cxx''])], [(var_A, [''ab'', ''cd'']), (var_B, [''cxx''])])) \<and>
   observar (backtrack_valores 5 (cruce [''ab'', ''cd'', ''cxx'', ''eyy'']) [] var_A [''ab'']
               (estado_nodo [''ab'', ''cd'', ''cxx'', ''eyy'']))
     = Some (Inr (None, [(var_A, [''ab'', ''cd'']), (var_B, [''cxx''])]))"
  by code_simp

subsection \<open>The assignments that the search returns\<close>

lemma consistencia_vecinos_True:
  "consistencia_vecinos cw asig var1 p1 vs = Inr True \<Longrightarrow> v2 \<in> set vs \<Longrightarrow>
   map_of asig v2 = Some p2 \<Longrightarrow>
   \<exists>i j. solapamientos cw (var1, v2) = Some (i, j) \<and> i < length p1 \<and> j < length p2 \<and>
      p1 ! i = p2 ! j"
  by (induction vs) (auto split: option.splits if_splits)

lemma consistencia_items_True:
  "consistencia_items cw asig items = Inr True \<Longrightarrow> (v1, p1) \<in> set items \<Longrightarrow>
   longitud v1 = length p1 \<and>
   consistencia_vecinos cw asig v1 p1 (vecinos cw v1) = Inr True"
  by (induction items) (auto split: if_splits sum.splits bool.splits)

lemma consistencia_True:
  assumes "consistencia cw a = Inr True"
  shows "(\<forall>v w. map_of a v = Some w \<longrightarrow> length w = longitud v) \<and>
    (\<forall>v1 w1 v2 w2 i j. map_of a v1 = Some w1 \<and> map_of a v2 = Some w2 \<and>
        v2 \<in> set (vecinos cw v1) \<and> solapamientos cw (v1, v2) = Some (i, j) \<longrightarrow>
        i < length w1 \<and> j < length w2 \<and> w1 ! i = w2 ! j)"
proof (intro conjI allI impI)
  fix v w assume "map_of a v = Some w"
  then have "(v, w) \<in> set a" by (rule map_of_SomeD)
  with assms consistencia_items_True [of cw a a v w] show "length w = longitud v"
    by (simp add: consistencia_def)
next
  fix v1 w1 v2 w2 i j
  assume h: "map_of a v1 = Some w1 \<and> map_of a v2 = Some w2 \<and>
        v2 \<in> set (vecinos cw v1) \<and> solapamientos cw (v1, v2) = Some (i, j)"
  then have "(v1, w1) \<in> set a" by (auto dest: map_of_SomeD)
  with assms consistencia_items_True [of cw a a v1 w1]
  have "consistencia_vecinos cw a v1 w1 (vecinos cw v1) = Inr True"
    by (simp add: consistencia_def)
  from consistencia_vecinos_True [OF this, of v2 w2] h
  show "i < length w1" "j < length w2" "w1 ! i = w2 ! j" by auto
qed

lemma backtrack_valores_valida:
  assumes ih: "\<And>asig s a s'. backtrack n cw asig s = Some (Inr (Some a, s')) \<Longrightarrow>
      consistencia cw asig = Inr True \<Longrightarrow>
      asignacion_completa cw a \<and> consistencia cw a = Inr True"
  shows "backtrack_valores n cw asig var vals s = Some (Inr (Some a, s')) \<Longrightarrow>
      asignacion_completa cw a \<and> consistencia cw a = Inr True"
proof (induction vals arbitrary: s)
  case Nil
  then show ?case by simp
next
  case (Cons valor resto)
  let ?nueva = "AList.update var valor asig"
  from Cons.prems obtain b where b: "consistencia cw ?nueva = Inr b"
    by (auto split: sum.splits)
  show ?case
  proof (cases b)
    case False
    with Cons.prems b have "backtrack_valores n cw asig var resto s = Some (Inr (Some a, s'))"
      by simp
    then show ?thesis by (rule Cons.IH)
  next
    case True
    from Cons.prems b True obtain inf s1 where
      i: "inferencia cw ?nueva var s = Some (Inr (inf, s1))"
      by (auto split: option.splits sum.splits)
    show ?thesis
    proof (cases inf)
      case None
      with Cons.prems b True i
      have "backtrack_valores n cw asig var resto s1 = Some (Inr (Some a, s'))" by simp
      then show ?thesis by (rule Cons.IH)
    next
      case (Some inferences)
      from Cons.prems b True i Some obtain res s2 where
        r: "backtrack n cw ?nueva (volcar_inferencias inferences s1) = Some (Inr (res, s2))"
        by (auto split: option.splits sum.splits)
      show ?thesis
      proof (cases "verdadero res")
        case True
        with Cons.prems b \<open>b\<close> i Some r have "res = Some a" "s2 = s'" by auto
        with r ih [of ?nueva "volcar_inferencias inferences s1" a s'] b \<open>b\<close>
        show ?thesis by simp
      next
        case False
        with Cons.prems b \<open>b\<close> i Some r
        have "backtrack_valores n cw asig var resto (volcar_inferencias inferences s2)
            = Some (Inr (Some a, s'))" by simp
        then show ?thesis by (rule Cons.IH)
      qed
    qed
  qed
qed

lemma backtrack_valida:
  "backtrack n cw asig s = Some (Inr (Some a, s')) \<Longrightarrow> consistencia cw asig = Inr True \<Longrightarrow>
   asignacion_completa cw a \<and> consistencia cw a = Inr True"
proof (induction n arbitrary: asig s a s')
  case 0
  then show ?case by simp
next
  case (Suc n)
  show ?case
  proof (cases "asignacion_completa cw asig")
    case True
    with Suc.prems show ?thesis by simp
  next
    case False
    with Suc.prems(1) obtain var vals where
      v: "backtrack_valores n cw asig var vals s = Some (Inr (Some a, s'))"
      by (auto split: sum.splits)
    show ?thesis by (rule backtrack_valores_valida [OF Suc.IH v])
  qed
qed

text \<open>
  Claim C3.  An assignment that \<^verbatim>\<open>solve\<close> returns, whatever the depth bound, the
  puzzle and the store it starts from, has the variables of the puzzle as its keys, gives
  every variable a word of the variable's length, and for every variable \<open>v1\<close> and
  every neighbour \<open>v2\<close> of it, with the overlap \<open>(i, j)\<close>, the two words have the same
  letter at the positions \<open>i\<close> and \<open>j\<close>.
\<close>

theorem solve_valida:
  assumes "solve n cw s = Some (Inr (Some a, s'))"
  shows "set (map fst a) = set (variables cw) \<and>
    (\<forall>v w. map_of a v = Some w \<longrightarrow> length w = longitud v) \<and>
    (\<forall>v1 w1 v2 w2 i j. map_of a v1 = Some w1 \<and> map_of a v2 = Some w2 \<and>
        v2 \<in> set (vecinos cw v1) \<and> solapamientos cw (v1, v2) = Some (i, j) \<longrightarrow>
        i < length w1 \<and> j < length w2 \<and> w1 ! i = w2 ! j)"
proof -
  from assms obtain s1 where "backtrack n cw [] s1 = Some (Inr (Some a, s'))"
    by (auto simp: solve_def split: option.splits sum.splits)
  moreover have "consistencia cw [] = Inr True" by (simp add: consistencia_def)
  ultimately have "asignacion_completa cw a \<and> consistencia cw a = Inr True"
    by (rule backtrack_valida)
  with consistencia_True [of cw a] show ?thesis by (simp add: asignacion_completa_def)
qed

lemma resultado_Some:
  "resultado r = Some (Inr x) \<Longrightarrow> \<exists>s'. r = Some (Inr (x, s'))"
  by (cases r) (auto simp: resultado_def map_sum_def split: sum.splits)

theorem solve_valida_witness:
  "(\<exists>s'. solve 5 (cruce [''ab'', ''cd'', ''cxx'', ''eyy''])
          (creador_init (cruce [''ab'', ''cd'', ''cxx'', ''eyy'']))
        = Some (Inr (Some [(var_A, ''cd''), (var_B, ''cxx'')], s'))) \<and>
   set (map fst [(var_A, ''cd''), (var_B, ''cxx'')])
     = set (variables (cruce [''ab'', ''cd'', ''cxx'', ''eyy''])) \<and>
   length ''cd'' = longitud var_A \<and> length ''cxx'' = longitud var_B \<and>
   var_B \<in> set (vecinos (cruce [''ab'', ''cd'', ''cxx'', ''eyy'']) var_A) \<and>
   solapamientos (cruce [''ab'', ''cd'', ''cxx'', ''eyy'']) (var_A, var_B) = Some (0, 0) \<and>
   0 < length ''cd'' \<and> 0 < length ''cxx'' \<and> ''cd'' ! 0 = ''cxx'' ! 0"
proof -
  let ?cw = "cruce [''ab'', ''cd'', ''cxx'', ''eyy'']"
  let ?a = "[(var_A, ''cd''), (var_B, ''cxx'')]"
  have "resultado (solve 5 ?cw (creador_init ?cw)) = Some (Inr (Some ?a))"
    by code_simp
  then have e: "\<exists>s'. solve 5 ?cw (creador_init ?cw) = Some (Inr (Some ?a, s'))"
    by (rule resultado_Some)
  then obtain s' where "solve 5 ?cw (creador_init ?cw) = Some (Inr (Some ?a, s'))" ..
  from solve_valida [OF this] have
    k: "set (map fst ?a) = set (variables ?cw)" and
    l: "\<forall>v w. map_of ?a v = Some w \<longrightarrow> length w = longitud v" and
    o: "\<forall>v1 w1 v2 w2 i j. map_of ?a v1 = Some w1 \<and> map_of ?a v2 = Some w2 \<and>
        v2 \<in> set (vecinos ?cw v1) \<and> solapamientos ?cw (v1, v2) = Some (i, j) \<longrightarrow>
        i < length w1 \<and> j < length w2 \<and> w1 ! i = w2 ! j"
    by blast+
  have mA: "map_of ?a var_A = Some ''cd''" by code_simp
  have mB: "map_of ?a var_B = Some ''cxx''" by code_simp
  have nb: "var_B \<in> set (vecinos ?cw var_A)" by code_simp
  have ov: "solapamientos ?cw (var_A, var_B) = Some (0, 0)" by code_simp
  from l mA have lA: "length ''cd'' = longitud var_A" by blast
  from l mB have lB: "length ''cxx'' = longitud var_B" by blast
  from o mA mB nb ov have "0 < length ''cd'' \<and> 0 < length ''cxx'' \<and> ''cd'' ! 0 = ''cxx'' ! 0"
    by blast
  with e k lA lB nb ov show ?thesis by blast
qed

lemma revisar_vocab:
  "revisar cw x y s = Inr (rv, s') \<Longrightarrow> \<forall>r. set (heap s r) \<subseteq> W \<Longrightarrow> \<forall>r. set (heap s' r) \<subseteq> W"
  using revisar_marco [of cw x y s rv s'] by blast

text \<open>
  What every revision keeps, both loops keep: the rule of a \<^theory_text>\<open>partial_function\<close>
  for the results that the loop returns.
\<close>

lemma ac3_bucle_inv_aux:
  assumes "ac3_bucle cw arcs s = Some res"
    and paso: "\<And>cw x y s rv s'. revisar cw x y s = Inr (rv, s') \<Longrightarrow> I s \<Longrightarrow> I s'"
  shows "\<forall>b s'. res = Inr (b, s') \<longrightarrow> I s \<longrightarrow> I s'"
  using assms(1)
proof (induct rule: ac3_bucle.raw_induct [rotated 1, consumes 1, case_names 1])
  case (1 bucle cw arcs s res)
  show ?case
  proof (rule allI, rule allI, rule impI, rule impI)
    fix b s' assume res: "res = Inr (b, s')" and inv: "I s"
    show "I s'"
    proof (cases "arcs = []")
      case True
      with 1(2) res inv show ?thesis by simp
    next
      case False
      obtain x y where xy: "last arcs = (x, y)" by (cases "last arcs")
      from 1(2) False xy res obtain rv s1 where rev: "revisar cw x y s = Inr (rv, s1)"
        by (auto split: sum.splits)
      from paso [OF rev inv] have inv1: "I s1" .
      show ?thesis
      proof (cases rv)
        case True
        from 1(2) False xy res rev True obtain rx where rx: "map_of (dominios s1) x = Some rx"
          by (auto split: option.splits)
        show ?thesis
        proof (cases "heap s1 rx = []")
          case True
          with 1(2) False xy res rev \<open>rv\<close> rx inv1 show ?thesis by simp
        next
          case False
          with 1(2) \<open>arcs \<noteq> []\<close> xy res rev \<open>rv\<close> rx
          have "bucle cw (butlast arcs @ map (\<lambda>z. (z, x)) (removeAll y (vecinos cw x))) s1
              = Some (Inr (b, s'))" by simp
          from 1(1) [OF this] inv1 show ?thesis by blast
        qed
      next
        case rvF: False
        with 1(2) False xy res rev have "bucle cw (butlast arcs) s1 = Some (Inr (b, s'))"
          by simp
        from 1(1) [OF this] inv1 show ?thesis by blast
      qed
    qed
  qed
qed

lemma ac3_bucle_inv:
  assumes "ac3_bucle cw arcs s = Some (Inr (b, s'))" and "I s"
    and "\<And>cw x y s rv s'. revisar cw x y s = Inr (rv, s') \<Longrightarrow> I s \<Longrightarrow> I s'"
  shows "I s'"
  using ac3_bucle_inv_aux [OF assms(1), of I] assms(2,3) by blast

lemma inferencia_bucle_inv_aux:
  assumes "inferencia_bucle cw queue inferences s = Some out"
    and paso: "\<And>cw x y s rv s'. revisar cw x y s = Inr (rv, s') \<Longrightarrow> I s \<Longrightarrow> I s'"
    and copia: "\<And>s r. I s \<Longrightarrow> I (snd (nuevo_conjunto (heap s r) s))"
  shows "\<forall>res s'. out = Inr (res, s') \<longrightarrow> I s \<longrightarrow> I s'"
  using assms(1)
proof (induct rule: inferencia_bucle.raw_induct [rotated 1, consumes 1, case_names 1])
  case (1 bucle cw queue inferences s out)
  show ?case
  proof (rule allI, rule allI, rule impI, rule impI)
    fix res s' assume out: "out = Inr (res, s')" and inv: "I s"
    show "I s'"
    proof (cases "queue = []")
      case True
      with 1(2) out inv show ?thesis by simp
    next
      case False
      obtain x y where xy: "last queue = (x, y)" by (cases "last queue")
      from 1(2) False xy out obtain rv s1 where rev: "revisar cw x y s = Inr (rv, s1)"
        by (auto split: sum.splits)
      from paso [OF rev inv] have inv1: "I s1" .
      show ?thesis
      proof (cases rv)
        case True
        from 1(2) False xy out rev True obtain rx where rx: "map_of (dominios s1) x = Some rx"
          by (auto split: option.splits)
        show ?thesis
        proof (cases "heap s1 rx = []")
          case True
          with 1(2) False xy out rev \<open>rv\<close> rx inv1 show ?thesis by simp
        next
          case False
          let ?s2 = "snd (nuevo_conjunto (heap s1 rx) s1)"
          from 1(2) \<open>queue \<noteq> []\<close> xy out rev \<open>rv\<close> rx False
          have "bucle cw (butlast queue @ map (\<lambda>z. (z, x)) (removeAll y (vecinos cw x)))
              (AList.update x (fst (nuevo_conjunto (heap s1 rx) s1)) inferences) ?s2
              = Some (Inr (res, s'))" by (simp add: split_beta)
          moreover have "I ?s2" using inv1 by (rule copia)
          ultimately show ?thesis using 1(1) by blast
        qed
      next
        case rvF: False
        with 1(2) False xy out rev have "bucle cw (butlast queue) inferences s1 = Some (Inr (res, s'))"
          by simp
        from 1(1) [OF this] inv1 show ?thesis by blast
      qed
    qed
  qed
qed

lemma inferencia_bucle_inv:
  assumes "inferencia_bucle cw queue inferences s = Some (Inr (res, s'))" and "I s"
    and "\<And>cw x y s rv s'. revisar cw x y s = Inr (rv, s') \<Longrightarrow> I s \<Longrightarrow> I s'"
    and "\<And>s r. I s \<Longrightarrow> I (snd (nuevo_conjunto (heap s r) s))"
  shows "I s'"
  using inferencia_bucle_inv_aux [OF assms(1), of I] assms(2,3,4) by blast

lemma ac3_bucle_vocab:
  assumes "ac3_bucle cw arcs s = Some (Inr (b, s'))" and "\<forall>r. set (heap s r) \<subseteq> W"
  shows "\<forall>r. set (heap s' r) \<subseteq> W"
  using assms
proof (rule ac3_bucle_inv [where I = "\<lambda>s. \<forall>r. set (heap s r) \<subseteq> W"])
  fix cw x y s rv s'
  assume "revisar cw x y s = Inr (rv, s')" "\<forall>r. set (heap s r) \<subseteq> W"
  then show "\<forall>r. set (heap s' r) \<subseteq> W" by (rule revisar_vocab)
qed

lemma inferencia_bucle_vocab:
  assumes "inferencia_bucle cw queue inferences s = Some (Inr (res, s'))"
    and "\<forall>r. set (heap s r) \<subseteq> W"
  shows "\<forall>r. set (heap s' r) \<subseteq> W"
  using assms
proof (rule inferencia_bucle_inv [where I = "\<lambda>s. \<forall>r. set (heap s r) \<subseteq> W"])
  fix cw x y s rv s'
  assume "revisar cw x y s = Inr (rv, s')" "\<forall>r. set (heap s r) \<subseteq> W"
  then show "\<forall>r. set (heap s' r) \<subseteq> W" by (rule revisar_vocab)
next
  fix s :: creador and r
  assume "\<forall>r. set (heap s r) \<subseteq> W"
  then show "\<forall>ra. set (heap (snd (nuevo_conjunto (heap s r) s)) ra) \<subseteq> W"
    by (simp add: nuevo_conjunto_def)
qed

lemma heap_volcar_inferencias: "heap (volcar_inferencias inferences s) = heap s"
  unfolding volcar_inferencias_def
  by (induction inferences arbitrary: s) (auto simp: asignar_dominio_def)

lemma con_claves_fst: "con_claves g xs = Inr ps \<Longrightarrow> map fst ps = xs"
  by (induction xs arbitrary: ps) (auto split: sum.splits)

lemma sorted_py_set: "sorted_py g xs = Inr ys \<Longrightarrow> set ys = set xs"
proof -
  assume a: "sorted_py g xs = Inr ys"
  then obtain ps where ps: "con_claves g xs = Inr ps" "ys = map fst (sort_key snd ps)"
    by (auto simp: sorted_py_def split: sum.splits)
  have "set ys = fst ` set ps" using ps(2) by simp
  also have "\<dots> = set (map fst ps)" by simp
  finally show ?thesis using con_claves_fst [OF ps(1)] by simp
qed

lemma ordenar_valores_dominio_vocab:
  "ordenar_valores_dominio cw var asig s = Inr vals \<Longrightarrow> \<forall>r. set (heap s r) \<subseteq> W \<Longrightarrow>
   set vals \<subseteq> W"
  by (auto simp: ordenar_valores_dominio_def split: option.splits dest!: sorted_py_set)

lemma set_update_vocab:
  "\<forall>p \<in> set asig. snd p \<in> W \<Longrightarrow> valor \<in> W \<Longrightarrow> \<forall>p \<in> set (AList.update var valor asig). snd p \<in> W"
  by (auto dest!: set_update_cases)

lemma backtrack_valores_vocab:
  assumes ih: "\<And>asig s res s'. backtrack n cw asig s = Some (Inr (res, s')) \<Longrightarrow>
      \<forall>r. set (heap s r) \<subseteq> W \<Longrightarrow> \<forall>p \<in> set asig. snd p \<in> W \<Longrightarrow>
      (\<forall>r. set (heap s' r) \<subseteq> W) \<and> (\<forall>a. res = Some a \<longrightarrow> (\<forall>p \<in> set a. snd p \<in> W))"
    and asig: "\<forall>p \<in> set asig. snd p \<in> W"
  shows "backtrack_valores n cw asig var vals s = Some (Inr (res, s')) \<Longrightarrow>
      \<forall>r. set (heap s r) \<subseteq> W \<Longrightarrow> set vals \<subseteq> W \<Longrightarrow>
      (\<forall>r. set (heap s' r) \<subseteq> W) \<and> (\<forall>a. res = Some a \<longrightarrow> (\<forall>p \<in> set a. snd p \<in> W))"
proof (induction vals arbitrary: s)
  case Nil
  then show ?case by simp
next
  case (Cons valor resto)
  let ?nueva = "AList.update var valor asig"
  from Cons.prems(3) have resto: "set resto \<subseteq> W" and valor: "valor \<in> W" by auto
  from asig valor have nueva: "\<forall>p \<in> set ?nueva. snd p \<in> W" by (rule set_update_vocab)
  from Cons.prems(1) obtain b where b: "consistencia cw ?nueva = Inr b"
    by (auto split: sum.splits)
  show ?case
  proof (cases b)
    case False
    with Cons.prems(1) b have "backtrack_valores n cw asig var resto s = Some (Inr (res, s'))"
      by simp
    from Cons.IH [OF this Cons.prems(2) resto] show ?thesis .
  next
    case True
    from Cons.prems(1) b True obtain inf s1 where
      i: "inferencia cw ?nueva var s = Some (Inr (inf, s1))"
      by (auto split: option.splits sum.splits)
    from inferencia_bucle_vocab [OF i [unfolded inferencia_def] Cons.prems(2)]
    have inv1: "\<forall>r. set (heap s1 r) \<subseteq> W" .
    show ?thesis
    proof (cases inf)
      case None
      with Cons.prems(1) b True i
      have "backtrack_valores n cw asig var resto s1 = Some (Inr (res, s'))" by simp
      from Cons.IH [OF this inv1 resto] show ?thesis .
    next
      case (Some inferences)
      from Cons.prems(1) b True i Some obtain res2 s2 where
        r: "backtrack n cw ?nueva (volcar_inferencias inferences s1) = Some (Inr (res2, s2))"
        by (auto split: option.splits sum.splits)
      have "\<forall>r. set (heap (volcar_inferencias inferences s1) r) \<subseteq> W"
        using inv1 by (simp add: heap_volcar_inferencias)
      from ih [OF r this nueva] have
        inv2: "\<forall>r. set (heap s2 r) \<subseteq> W" and
        a2: "\<forall>a. res2 = Some a \<longrightarrow> (\<forall>p \<in> set a. snd p \<in> W)" by auto
      show ?thesis
      proof (cases "verdadero res2")
        case True
        with Cons.prems(1) b \<open>b\<close> i Some r have "res = res2" "s' = s2" by auto
        with inv2 a2 show ?thesis by simp
      next
        case False
        with Cons.prems(1) b \<open>b\<close> i Some r
        have "backtrack_valores n cw asig var resto (volcar_inferencias inferences s2)
            = Some (Inr (res, s'))" by simp
        moreover have "\<forall>r. set (heap (volcar_inferencias inferences s2) r) \<subseteq> W"
          using inv2 by (simp add: heap_volcar_inferencias)
        ultimately show ?thesis using resto by (rule Cons.IH)
      qed
    qed
  qed
qed

lemma backtrack_vocab:
  "backtrack n cw asig s = Some (Inr (res, s')) \<Longrightarrow>
   \<forall>r. set (heap s r) \<subseteq> W \<Longrightarrow> \<forall>p \<in> set asig. snd p \<in> W \<Longrightarrow>
   (\<forall>r. set (heap s' r) \<subseteq> W) \<and> (\<forall>a. res = Some a \<longrightarrow> (\<forall>p \<in> set a. snd p \<in> W))"
proof (induction n arbitrary: asig s res s')
  case 0
  then show ?case by simp
next
  case (Suc n)
  show ?case
  proof (cases "asignacion_completa cw asig")
    case True
    with Suc.prems show ?thesis by auto
  next
    case False
    with Suc.prems(1) obtain var vals where
      o: "ordenar_valores_dominio cw var asig s = Inr vals" and
      v: "backtrack_valores n cw asig var vals s = Some (Inr (res, s'))"
      by (auto split: sum.splits)
    from ordenar_valores_dominio_vocab [OF o Suc.prems(2)] have vals: "set vals \<subseteq> W" .
    show ?thesis
    proof (rule backtrack_valores_vocab [where n = n and W = W, OF _ Suc.prems(3) v Suc.prems(2) vals])
      fix asig s res s'
      assume "backtrack n cw asig s = Some (Inr (res, s'))" "\<forall>r. set (heap s r) \<subseteq> W"
        "\<forall>p \<in> set asig. snd p \<in> W"
      then show "(\<forall>r. set (heap s' r) \<subseteq> W) \<and> (\<forall>a. res = Some a \<longrightarrow> (\<forall>p \<in> set a. snd p \<in> W))"
        by (rule Suc.IH)
    qed
  qed
qed

lemma creador_init_vocab: "set (heap (creador_init cw) r) \<subseteq> set (words cw)"
proof -
  have "\<forall>r. set (heap s r) \<subseteq> set (words cw) \<Longrightarrow>
     \<forall>r. set (heap (fold (\<lambda>var s. case nuevo_conjunto (words cw) s of (r, s') \<Rightarrow> asignar_dominio var r s') vs s) r) \<subseteq> set (words cw)"
    for vs s
    by (induction vs arbitrary: s) (auto simp: nuevo_conjunto_def asignar_dominio_def)
  then show ?thesis by (simp add: creador_init_def)
qed

lemma consistencia_nodo_vocab:
  assumes "\<forall>r. set (heap s r) \<subseteq> W"
  shows "\<forall>r. set (heap (consistencia_nodo s) r) \<subseteq> W"
proof -
  have p: "\<forall>r. set (heap s r) \<subseteq> W \<Longrightarrow> \<forall>r. set (heap (consistencia_nodo_paso v s) r) \<subseteq> W" for v s
    by (auto simp: consistencia_nodo_paso_def nuevo_conjunto_def asignar_dominio_def
        split: option.splits)
  have "\<forall>r. set (heap s r) \<subseteq> W \<Longrightarrow> \<forall>r. set (heap (fold consistencia_nodo_paso vs s) r) \<subseteq> W"
    for vs s
  proof (induction vs arbitrary: s)
    case Nil
    then show ?case by simp
  next
    case (Cons v vs)
    from p [OF Cons.prems] have "\<forall>r. set (heap (consistencia_nodo_paso v s) r) \<subseteq> W" .
    from Cons.IH [OF this] show ?case by simp
  qed
  with assms show ?thesis by (simp add: consistencia_nodo_def)
qed

text \<open>
  Claim C10.  Every word of an assignment that \<^verbatim>\<open>solve\<close> returns for a solver
  built by \<^verbatim>\<open>__init__\<close> is a word of the vocabulary of the puzzle: the sets of the
  store hold words of the vocabulary from the construction on, and the search assigns
  words of the domain of the variable it selected.
\<close>

theorem solve_vocabulario:
  assumes "solve n cw (creador_init cw) = Some (Inr (Some a, s'))"
  shows "\<forall>v w. (v, w) \<in> set a \<longrightarrow> w \<in> set (words cw)"
proof -
  let ?W = "set (words cw)"
  have i0: "\<forall>r. set (heap (consistencia_nodo (creador_init cw)) r) \<subseteq> ?W"
    by (intro consistencia_nodo_vocab allI creador_init_vocab)
  from assms obtain b s1 where
    a: "ac3 cw None (consistencia_nodo (creador_init cw)) = Some (Inr (b, s1))" and
    bt: "backtrack n cw [] s1 = Some (Inr (Some a, s'))"
    by (auto simp: solve_def split: option.splits sum.splits)
  from ac3_bucle_vocab [OF a [unfolded ac3_def] i0] have "\<forall>r. set (heap s1 r) \<subseteq> ?W" .
  from backtrack_vocab [OF bt this] show ?thesis by force
qed

theorem solve_vocabulario_witness:
  "(\<exists>s'. solve 5 (cruce [''ab'', ''cd'', ''cxx'', ''eyy''])
          (creador_init (cruce [''ab'', ''cd'', ''cxx'', ''eyy'']))
        = Some (Inr (Some [(var_A, ''cd''), (var_B, ''cxx'')], s'))) \<and>
   ''cd'' \<in> set (words (cruce [''ab'', ''cd'', ''cxx'', ''eyy''])) \<and>
   ''cxx'' \<in> set (words (cruce [''ab'', ''cd'', ''cxx'', ''eyy'']))"
proof -
  let ?cw = "cruce [''ab'', ''cd'', ''cxx'', ''eyy'']"
  let ?a = "[(var_A, ''cd''), (var_B, ''cxx'')]"
  have "resultado (solve 5 ?cw (creador_init ?cw)) = Some (Inr (Some ?a))"
    by code_simp
  then have e: "\<exists>s'. solve 5 ?cw (creador_init ?cw) = Some (Inr (Some ?a, s'))"
    by (rule resultado_Some)
  then obtain s' where "solve 5 ?cw (creador_init ?cw) = Some (Inr (Some ?a, s'))" ..
  from solve_vocabulario [OF this]
  have v: "\<forall>v w. (v, w) \<in> set ?a \<longrightarrow> w \<in> set (words ?cw)" .
  have "(var_A, ''cd'') \<in> set ?a" "(var_B, ''cxx'') \<in> set ?a" by simp_all
  with v have "''cd'' \<in> set (words ?cw)" "''cxx'' \<in> set (words ?cw)" by blast+
  with e show ?thesis by blast
qed

subsection \<open>Termination of the search\<close>

text \<open>
  The inference loop returns on every store whose references were handed out, and
  \<^verbatim>\<open>backtrack\<close> returns within a depth of one more than the number of variables it
  has left to assign: the bound of the model is reached by no run of \<^verbatim>\<open>solve\<close>
  when it exceeds the number of variables.
\<close>

lemma peso_nuevo_conjunto:
  "almacen_ok s \<Longrightarrow> peso (snd (nuevo_conjunto ws s)) = peso s"
proof -
  assume "almacen_ok s"
  then have "\<forall>p \<in> set (dominios s). snd p \<noteq> libre s"
    by (auto simp: almacen_ok_def list_all_iff)
  then show ?thesis
    by (auto simp: peso_def nuevo_conjunto_def intro!: arg_cong [where f = sum_list])
qed

lemma almacen_ok_nuevo_conjunto:
  "almacen_ok s \<Longrightarrow> almacen_ok (snd (nuevo_conjunto ws s))"
  by (auto simp: almacen_ok_def nuevo_conjunto_def list_all_iff)

lemma revisar_almacen_ok:
  "revisar cw x y s = Inr (rv, s') \<Longrightarrow> almacen_ok s \<Longrightarrow> almacen_ok s'"
  using revisar_marco [of cw x y s rv s'] by (simp add: almacen_ok_def)

lemma refs_ok_update:
  "refs_ok s inferences \<Longrightarrow> r < libre s \<Longrightarrow> refs_ok s (AList.update x r inferences)"
  by (auto simp: refs_ok_def list_all_iff dest!: set_update_cases)

lemma refs_ok_mono: "refs_ok s inferences \<Longrightarrow> libre s \<le> libre s' \<Longrightarrow> refs_ok s' inferences"
  by (auto simp: refs_ok_def list_all_iff)

lemma inferencia_bucle_termina:
  "almacen_ok s \<Longrightarrow> refs_ok s inferences \<Longrightarrow>
   \<exists>out. inferencia_bucle cw queue inferences s = Some out \<and>
     (\<forall>res s'. out = Inr (res, s') \<longrightarrow> almacen_ok s' \<and> libre s \<le> libre s' \<and>
        (\<forall>inf. res = Some inf \<longrightarrow> refs_ok s' inf))"
proof (induction "(peso s, length queue)" arbitrary: queue inferences s
    rule: wf_induct_rule [OF wf_lex_prod [OF wf_less_than wf_less_than]])
  case less: 1
  show ?case
  proof (cases "queue = []")
    case True
    with less.prems show ?thesis by (subst inferencia_bucle.simps) simp
  next
    case False
    obtain x y where xy: "last queue = (x, y)" by (cases "last queue")
    show ?thesis
    proof (cases "revisar cw x y s")
      case (Inl e)
      with False xy show ?thesis by (subst inferencia_bucle.simps) simp
    next
      case (Inr p)
      obtain rv s1 where p: "p = (rv, s1)" by (cases p)
      from Inr p have rev: "revisar cw x y s = Inr (rv, s1)" by simp
      from revisar_almacen_ok [OF rev less.prems(1)] have ok1: "almacen_ok s1" .
      from revisar_marco [OF rev] have l1: "libre s1 = libre s" by simp
      with less.prems(2) have r1: "refs_ok s1 inferences" by (simp add: refs_ok_def)
      show ?thesis
      proof (cases rv)
        case True
        with rev have pl: "peso s1 < peso s" by (intro revisar_peso_less) simp
        show ?thesis
        proof (cases "map_of (dominios s1) x")
          case None
          with False xy rev True show ?thesis by (subst inferencia_bucle.simps) simp
        next
          case (Some rx)
          show ?thesis
          proof (cases "heap s1 rx = []")
            case True
            with False xy rev \<open>rv\<close> Some ok1 l1 show ?thesis
              by (subst inferencia_bucle.simps) simp
          next
            case hne: False
            let ?s2 = "snd (nuevo_conjunto (heap s1 rx) s1)"
            let ?r = "fst (nuevo_conjunto (heap s1 rx) s1)"
            have ok2: "almacen_ok ?s2" using ok1 by (rule almacen_ok_nuevo_conjunto)
            have l2: "libre ?s2 = Suc (libre s1)" "?r = libre s1"
              by (simp_all add: nuevo_conjunto_def)
            have "refs_ok ?s2 inferences" using refs_ok_mono [OF r1, of ?s2] l2 by simp
            then have r2: "refs_ok ?s2 (AList.update x ?r inferences)"
              using l2 by (intro refs_ok_update) simp_all
            have "peso ?s2 < peso s" using pl peso_nuevo_conjunto [OF ok1] by simp
            then have "((peso ?s2, length (butlast queue @ map (\<lambda>z. (z, x)) (removeAll y (vecinos cw x)))),
                 (peso s, length queue)) \<in> less_than <*lex*> less_than" by simp
            from less.hyps [OF this ok2 r2] obtain out where
              o: "inferencia_bucle cw (butlast queue @ map (\<lambda>z. (z, x)) (removeAll y (vecinos cw x)))
                    (AList.update x ?r inferences) ?s2 = Some out"
              "\<forall>res s'. out = Inr (res, s') \<longrightarrow> almacen_ok s' \<and> libre ?s2 \<le> libre s' \<and>
                  (\<forall>inf. res = Some inf \<longrightarrow> refs_ok s' inf)" by blast
            have "inferencia_bucle cw queue inferences s = Some out"
              using False xy rev \<open>rv\<close> Some hne o(1)
              by (subst inferencia_bucle.simps) (simp add: split_beta)
            moreover have "\<forall>res s'. out = Inr (res, s') \<longrightarrow> almacen_ok s' \<and> libre s \<le> libre s' \<and>
                  (\<forall>inf. res = Some inf \<longrightarrow> refs_ok s' inf)"
              using o(2) l1 l2 by auto
            ultimately show ?thesis by blast
          qed
        qed
      next
        case rvF: False
        with rev have "peso s1 \<le> peso s" by (intro revisar_peso_le) simp
        moreover have "length (butlast queue) < length queue" using False by simp
        ultimately have "((peso s1, length (butlast queue)), (peso s, length queue))
            \<in> less_than <*lex*> less_than" by auto
        from less.hyps [OF this ok1 r1] obtain out where
          o: "inferencia_bucle cw (butlast queue) inferences s1 = Some out"
          "\<forall>res s'. out = Inr (res, s') \<longrightarrow> almacen_ok s' \<and> libre s1 \<le> libre s' \<and>
              (\<forall>inf. res = Some inf \<longrightarrow> refs_ok s' inf)" by blast
        have "inferencia_bucle cw queue inferences s = Some out"
          using False xy rev rvF o(1) by (subst inferencia_bucle.simps) simp
        with o(2) l1 show ?thesis by auto
      qed
    qed
  qed
qed

lemma ac3_almacen_ok:
  "ac3 cw arcs s = Some (Inr (b, s')) \<Longrightarrow> almacen_ok s \<Longrightarrow> almacen_ok s'"
  unfolding ac3_def by (erule ac3_bucle_inv) (auto intro: revisar_almacen_ok)

lemma volcar_inferencias_ok:
  "almacen_ok s \<Longrightarrow> refs_ok s inferences \<Longrightarrow>
   almacen_ok (volcar_inferencias inferences s) \<and>
   libre (volcar_inferencias inferences s) = libre s"
  unfolding volcar_inferencias_def
proof (induction inferences arbitrary: s)
  case Nil
  then show ?case by simp
next
  case (Cons p inferences)
  obtain v r where p: "p = (v, r)" by (cases p)
  from Cons.prems p have r: "r < libre s" and rest: "refs_ok s inferences"
    by (simp_all add: refs_ok_def)
  from Cons.prems(1) r have ok: "almacen_ok (asignar_dominio v r s)"
    by (auto simp: almacen_ok_def asignar_dominio_def list_all_iff dest!: set_update_cases)
  have l: "libre (asignar_dominio v r s) = libre s" by (simp add: asignar_dominio_def)
  from rest l have "refs_ok (asignar_dominio v r s) inferences" by (simp add: refs_ok_def)
  from Cons.IH [OF ok this] l p show ?case by simp
qed

lemma sorted_py_hd:
  "sorted_py g xs = Inr (y # ys) \<Longrightarrow> y \<in> set xs"
  using sorted_py_set [of g xs "y # ys"] by auto

lemma seleccionar_sin_asignar:
  "seleccionar_variable_no_asignada cw asig s = Inr var \<Longrightarrow>
   var \<in> set (variables cw) \<and> map_of asig var = None"
  by (auto simp: seleccionar_variable_no_asignada_def split: sum.splits list.splits
      dest!: sorted_py_hd)

lemma sin_asignar_update:
  assumes "var \<in> set (variables cw)" and "map_of asig var = None"
  shows "card (sin_asignar cw (AList.update var valor asig)) < card (sin_asignar cw asig)"
proof -
  have "sin_asignar cw (AList.update var valor asig) \<subseteq> sin_asignar cw asig - {var}"
    by (auto simp: sin_asignar_def update_conv' split: if_splits)
  moreover have "var \<in> sin_asignar cw asig" using assms by (simp add: sin_asignar_def)
  moreover have "finite (sin_asignar cw asig)" by (simp add: sin_asignar_def)
  ultimately show ?thesis
    by (metis Diff_subset card_Diff1_less card_mono finite_subset le_less_trans)
qed

lemma backtrack_valores_termina:
  assumes ih: "\<And>asig s. almacen_ok s \<Longrightarrow> card (sin_asignar cw asig) < n \<Longrightarrow>
      \<exists>out. backtrack n cw asig s = Some out \<and>
        (\<forall>r s'. out = Inr (r, s') \<longrightarrow> almacen_ok s' \<and> libre s \<le> libre s')"
    and menos: "\<And>valor. card (sin_asignar cw (AList.update var valor asig)) < n"
  shows "almacen_ok s \<Longrightarrow>
      \<exists>out. backtrack_valores n cw asig var vals s = Some out \<and>
        (\<forall>r s'. out = Inr (r, s') \<longrightarrow> almacen_ok s' \<and> libre s \<le> libre s')"
proof (induction vals arbitrary: s)
  case Nil
  then show ?case by simp
next
  case (Cons valor resto)
  let ?nueva = "AList.update var valor asig"
  show ?case
  proof (cases "consistencia cw ?nueva")
    case (Inl e)
    then show ?thesis by simp
  next
    case (Inr b)
    show ?thesis
    proof (cases b)
      case False
      with Inr Cons.IH [OF Cons.prems] show ?thesis by simp
    next
      case True
      have "refs_ok s []" by (simp add: refs_ok_def)
      from inferencia_bucle_termina [OF Cons.prems this, of cw "map (\<lambda>x. (x, var)) (vecinos cw var)"]
      obtain out where
        i: "inferencia cw ?nueva var s = Some out" and
        ip: "\<forall>res s'. out = Inr (res, s') \<longrightarrow> almacen_ok s' \<and> libre s \<le> libre s' \<and>
            (\<forall>inf. res = Some inf \<longrightarrow> refs_ok s' inf)"
        unfolding inferencia_def by blast
      show ?thesis
      proof (cases out)
        case (Inl e)
        with Inr True i show ?thesis by simp
      next
        case outr: (Inr p)
        obtain inf s1 where p: "p = (inf, s1)" by (cases p)
        from ip outr p have ok1: "almacen_ok s1" and l1: "libre s \<le> libre s1"
          and rf: "\<forall>inferences. inf = Some inferences \<longrightarrow> refs_ok s1 inferences" by auto
        show ?thesis
        proof (cases inf)
          case None
          from Cons.IH [OF ok1] obtain out2 where
            "backtrack_valores n cw asig var resto s1 = Some out2"
            "\<forall>r s'. out2 = Inr (r, s') \<longrightarrow> almacen_ok s' \<and> libre s1 \<le> libre s'" by blast
          with Inr True i outr p None l1 show ?thesis by auto
        next
          case (Some inferences)
          with rf have rf1: "refs_ok s1 inferences" by simp
          let ?sv = "volcar_inferencias inferences s1"
          from volcar_inferencias_ok [OF ok1 rf1] have okv: "almacen_ok ?sv" and lv: "libre ?sv = libre s1"
            by auto
          from ih [OF okv menos] obtain out2 where
            b: "backtrack n cw ?nueva ?sv = Some out2" and
            bp: "\<forall>r s'. out2 = Inr (r, s') \<longrightarrow> almacen_ok s' \<and> libre ?sv \<le> libre s'" by blast
          show ?thesis
          proof (cases out2)
            case (Inl e)
            with Inr True i outr p Some b show ?thesis by simp
          next
            case out2r: (Inr q)
            obtain res s2 where q: "q = (res, s2)" by (cases q)
            from bp out2r q lv have ok2: "almacen_ok s2" and l2: "libre s1 \<le> libre s2" by auto
            show ?thesis
            proof (cases "verdadero res")
              case True
              with Inr \<open>b\<close> i outr p Some b out2r q ok2 l1 l2 show ?thesis by simp
            next
              case vF: False
              let ?sr = "volcar_inferencias inferences s2"
              from rf1 l2 have "refs_ok s2 inferences" by (rule refs_ok_mono)
              from volcar_inferencias_ok [OF ok2 this] have okr: "almacen_ok ?sr"
                and lr: "libre ?sr = libre s2" by auto
              from Cons.IH [OF okr] obtain out3 where
                "backtrack_valores n cw asig var resto ?sr = Some out3"
                "\<forall>r s'. out3 = Inr (r, s') \<longrightarrow> almacen_ok s' \<and> libre ?sr \<le> libre s'" by blast
              with Inr \<open>b\<close> i outr p Some b out2r q vF l1 l2 lr show ?thesis by auto
            qed
          qed
        qed
      qed
    qed
  qed
qed

lemma backtrack_termina_aux:
  "almacen_ok s \<Longrightarrow> card (sin_asignar cw asig) < n \<Longrightarrow>
   \<exists>out. backtrack n cw asig s = Some out \<and>
     (\<forall>r s'. out = Inr (r, s') \<longrightarrow> almacen_ok s' \<and> libre s \<le> libre s')"
proof (induction n arbitrary: asig s)
  case 0
  then show ?case by simp
next
  case (Suc n)
  show ?case
  proof (cases "asignacion_completa cw asig")
    case True
    with Suc.prems show ?thesis by simp
  next
    case False
    show ?thesis
    proof (cases "seleccionar_variable_no_asignada cw asig s")
      case (Inl e)
      with False show ?thesis by simp
    next
      case (Inr var)
      from seleccionar_sin_asignar [OF Inr] have v: "var \<in> set (variables cw)" "map_of asig var = None"
        by auto
      show ?thesis
      proof (cases "ordenar_valores_dominio cw var asig s")
        case (Inl e)
        with False Inr show ?thesis by simp
      next
        case vals: (Inr vals)
        have menos: "card (sin_asignar cw (AList.update var valor asig)) < n" for valor
          using sin_asignar_update [OF v, of valor] Suc.prems(2) by simp
        have "\<exists>out. backtrack_valores n cw asig var vals s = Some out \<and>
            (\<forall>r s'. out = Inr (r, s') \<longrightarrow> almacen_ok s' \<and> libre s \<le> libre s')"
          by (rule backtrack_valores_termina [OF Suc.IH menos Suc.prems(1)])
        with False Inr vals show ?thesis by simp
      qed
    qed
  qed
qed

lemma creador_init_ok: "almacen_ok (creador_init cw) \<and> separados (creador_init cw)"
proof -
  let ?paso = "\<lambda>var s. case nuevo_conjunto (words cw) s of (r, s') \<Rightarrow> asignar_dominio var r s'"
  have paso: "almacen_ok (?paso v s) \<and> separados (?paso v s)" if "almacen_ok s" "separados s" for v s
  proof -
    have d: "distinct (map snd (AList.update v r al))"
      if "distinct (map snd al)" "r \<notin> snd ` set al" for r :: ref and al :: "(variable \<times> ref) list"
      using that by (induction al) (auto dest!: set_update_cases)
    from that(1) have "libre s \<notin> snd ` set (dominios s)"
      by (auto simp: almacen_ok_def list_all_iff)
    with that d [where al = "dominios s" and r = "libre s"] show ?thesis
      by (auto simp: nuevo_conjunto_def asignar_dominio_def almacen_ok_def separados_def
          list_all_iff dest!: set_update_cases)
  qed
  have "almacen_ok (fold ?paso vs s) \<and> separados (fold ?paso vs s)"
    if "almacen_ok s" "separados s" for vs s
    using that
  proof (induction vs arbitrary: s)
    case Nil
    then show ?case by simp
  next
    case (Cons v vs)
    from paso [OF Cons.prems] Cons.IH show ?case by simp
  qed
  then show ?thesis by (simp add: creador_init_def almacen_ok_def separados_def)
qed

lemma solve_termina:
  assumes "almacen_ok s" and "length (variables cw) < n"
  shows "\<exists>out. solve n cw s = Some out"
proof -
  from ac3_bucle_termina obtain r where a: "ac3 cw None (consistencia_nodo s) = Some r"
    unfolding ac3_def by blast
  show ?thesis
  proof (cases r)
    case (Inl e)
    with a show ?thesis by (simp add: solve_def)
  next
    case (Inr p)
    obtain b s1 where p: "p = (b, s1)" by (cases p)
    from a Inr p consistencia_nodo_ok [OF assms(1)] have ok: "almacen_ok s1"
      by (auto intro: ac3_almacen_ok)
    have "sin_asignar cw [] = set (variables cw)" by (simp add: sin_asignar_def)
    then have "card (sin_asignar cw []) \<le> length (variables cw)" by (simp add: card_length)
    with assms(2) have "card (sin_asignar cw []) < n" by simp
    from backtrack_termina_aux [OF ok this] a Inr p show ?thesis
      by (auto simp: solve_def)
  qed
qed

subsection \<open>Arc consistency after the propagation\<close>

lemma cumple_restriccion_resultado:
  "cumple_restriccion i j px dy = Inr b \<Longrightarrow> b = soportada i j dy px"
  by (induction dy) (auto simp: soportada_def split: if_splits)

lemma revisar_bucle_resultado:
  assumes "map_of (dominios s) x = Some rx" "map_of (dominios s) y = Some ry" "rx \<noteq> ry"
    and "revisar_bucle i j x y pxs rv s = Inr (rv', s')"
  shows "rv' = (rv \<or> (\<exists>w \<in> set pxs. \<not> soportada i j (heap s ry) w)) \<and>
    s' = s\<lparr>heap := (heap s)(rx := filter (\<lambda>w. w \<notin> set pxs \<or> soportada i j (heap s ry) w) (heap s rx))\<rparr>"
  using assms
proof (induction pxs arbitrary: rv s)
  case Nil
  then show ?case by simp
next
  case (Cons px pxs)
  let ?sop = "soportada i j (heap s ry)"
  from Cons.prems obtain b where b: "cumple_restriccion i j px (heap s ry) = Inr b"
    by (auto split: sum.splits)
  from cumple_restriccion_resultado [OF b] have bs: "b = ?sop px" .
  show ?case
  proof (cases "?sop px")
    case True
    with Cons.prems b bs have r: "revisar_bucle i j x y pxs rv s = Inr (rv', s')" by simp
    note ih = Cons.IH [OF Cons.prems(1,2,3) r]
    note 1 = ih [THEN conjunct1] and 2 = ih [THEN conjunct2]
    have f: "filter (\<lambda>w. w \<notin> set pxs \<or> ?sop w) (heap s rx) =
        filter (\<lambda>w. w \<notin> set (px # pxs) \<or> ?sop w) (heap s rx)"
      using True by (intro filter_cong) auto
    from 1 True have "rv' = (rv \<or> (\<exists>w \<in> set (px # pxs). \<not> ?sop w))" by simp
    moreover have "s' = s\<lparr>heap := (heap s)(rx := filter (\<lambda>w. w \<notin> set (px # pxs) \<or> ?sop w) (heap s rx))\<rparr>"
      using 2 unfolding f .
    ultimately show ?thesis by blast
  next
    case False
    let ?s1 = "s\<lparr>heap := (heap s)(rx := removeAll px (heap s rx))\<rparr>"
    have h1: "heap ?s1 ry = heap s ry" using Cons.prems(3) by simp
    from Cons.prems b bs False have r: "revisar_bucle i j x y pxs True ?s1 = Inr (rv', s')" by simp
    have d: "map_of (dominios ?s1) x = Some rx" "map_of (dominios ?s1) y = Some ry"
      using Cons.prems by simp_all
    note ih = Cons.IH [OF d Cons.prems(3) r]
    note 2 = ih [THEN conjunct2]
    from ih [THEN conjunct1] have 1: "rv'" by simp
    have f: "filter (\<lambda>w. w \<notin> set pxs \<or> soportada i j (heap ?s1 ry) w) (heap ?s1 rx) =
        filter (\<lambda>w. w \<notin> set (px # pxs) \<or> ?sop w) (heap s rx)"
      using False unfolding h1 by (auto simp: removeAll_filter_not_eq intro: filter_cong)
    have e: "?s1\<lparr>heap := (heap ?s1)(rx := filter (\<lambda>w. w \<notin> set (px # pxs) \<or> ?sop w) (heap s rx))\<rparr>
        = s\<lparr>heap := (heap s)(rx := filter (\<lambda>w. w \<notin> set (px # pxs) \<or> ?sop w) (heap s rx))\<rparr>"
      by simp
    have "s' = s\<lparr>heap := (heap s)(rx := filter (\<lambda>w. w \<notin> set (px # pxs) \<or> ?sop w) (heap s rx))\<rparr>"
      using 2 unfolding f e .
    moreover from 1 False have "rv' = (rv \<or> (\<exists>w \<in> set (px # pxs). \<not> ?sop w))" by simp
    ultimately show ?thesis by blast
  qed
qed

text \<open>What a revision that returns does to the domains, for two keys of a separated store.\<close>

lemma revisar_resultado:
  assumes sep: "separados s" and dx: "dominio s x = Some dx" and dy: "dominio s y = Some dy"
    and ne: "x \<noteq> y" and ov: "solapamientos cw (x, y) = Some (i, j)"
    and rev: "revisar cw x y s = Inr (rv, s')"
  shows "rv = (\<exists>w \<in> set dx. \<not> soportada i j dy w) \<and>
    dominios s' = dominios s \<and>
    dominio s' x = Some (filter (soportada i j dy) dx) \<and>
    (\<forall>z. z \<noteq> x \<longrightarrow> dominio s' z = dominio s z)"
proof -
  from dx obtain rx where rx: "map_of (dominios s) x = Some rx" "heap s rx = dx"
    by (auto simp: dominio_def)
  from dy obtain ry where ry: "map_of (dominios s) y = Some ry" "heap s ry = dy"
    by (auto simp: dominio_def)
  from ne rx ry separados_inj [OF sep] have nr: "rx \<noteq> ry" by blast
  from rev ov rx have "revisar_bucle i j x y dx False s = Inr (rv, s')"
    by (simp add: revisar_def)
  note res = revisar_bucle_resultado [OF rx(1) ry(1) nr this, unfolded ry(2) rx(2)]
  note 1 = res [THEN conjunct1] and 2 = res [THEN conjunct2]
  from 1 have 1: "rv = (\<exists>w \<in> set dx. \<not> soportada i j dy w)" by simp
  have f: "filter (\<lambda>w. w \<notin> set dx \<or> soportada i j dy w) dx = filter (soportada i j dy) dx"
    by (intro filter_cong) auto
  have o: "dominio s' z = dominio s z" if "z \<noteq> x" for z
  proof (cases "map_of (dominios s) z")
    case None
    then show ?thesis using 2 by (simp add: dominio_def)
  next
    case (Some rz)
    with that rx separados_inj [OF sep] have "rz \<noteq> rx" by blast
    with Some 2 show ?thesis by (simp add: dominio_def)
  qed
  from 1 2 f rx o show ?thesis by (simp add: dominio_def)
qed

lemma claves_dominio:
  "claves_ok cw s \<Longrightarrow> v \<in> set (variables cw) \<Longrightarrow> \<exists>d. dominio s v = Some d"
  by (cases "map_of (dominios s) v")
     (auto simp: claves_ok_def dominio_def map_of_eq_None_iff)

lemma vecinos_D:
  "y \<in> set (vecinos cw x) \<Longrightarrow> y \<in> set (variables cw) \<and> y \<noteq> x \<and> solapamientos cw (y, x) \<noteq> None"
  by (auto simp: vecinos_def)

lemma estructura_ok_sim:
  "estructura_ok cw \<Longrightarrow> solapamientos cw (y, x) \<noteq> None \<Longrightarrow> solapamientos cw (x, y) \<noteq> None"
proof -
  assume e: "estructura_ok cw" and "solapamientos cw (y, x) \<noteq> None"
  then obtain p q where "solapamientos cw (y, x) = Some (p, q)" by auto
  with e have "solapamientos cw (x, y) = Some (q, p)" unfolding estructura_ok_def by blast
  then show ?thesis by simp
qed

lemma vecinos_sim:
  "estructura_ok cw \<Longrightarrow> x \<in> set (variables cw) \<Longrightarrow> y \<in> set (vecinos cw x) \<Longrightarrow>
   x \<in> set (vecinos cw y)"
  using estructura_ok_sim [of cw y x] by (auto simp: vecinos_def)

lemma in_set_butlast_no_last:
  "x \<in> set xs \<Longrightarrow> x \<noteq> last xs \<Longrightarrow> x \<in> set (butlast xs)"
  by (induction xs) (auto split: if_splits)

lemma arcos_sim: "estructura_ok cw \<Longrightarrow> (x, y) \<in> arcos cw \<Longrightarrow> (y, x) \<in> arcos cw"
  using vecinos_sim [of cw x y] vecinos_D [of y cw x] by (auto simp: arcos_def)

lemma paso_ac3:
  assumes est: "estructura_ok cw" and sep: "separados s" and cl: "claves_ok cw s"
    and inv: "inv_ac3 cw arcs s" and ne: "arcs \<noteq> []" and l: "last arcs = (x, y)"
    and rev: "revisar cw x y s = Inr (rv, s1)"
  shows "separados s1 \<and> claves_ok cw s1 \<and>
    inv_ac3 cw (if rv then butlast arcs @ map (\<lambda>z. (z, x)) (removeAll y (vecinos cw x))
                else butlast arcs) s1"
proof -
  let ?arcs' = "if rv then butlast arcs @ map (\<lambda>z. (z, x)) (removeAll y (vecinos cw x))
                else butlast arcs"
  from inv have sub: "set arcs \<subseteq> arcos cw"
    and cov: "\<And>a b. (a, b) \<in> arcos cw \<Longrightarrow> (a, b) \<in> set arcs \<or> arco_consistente cw s a b"
    by (auto simp: inv_ac3_def)
  from ne l have "(x, y) \<in> set arcs" using last_in_set [of arcs] by simp
  with sub have xy: "(x, y) \<in> arcos cw" by blast
  then have xv: "x \<in> set (variables cw)" and yn: "y \<in> set (vecinos cw x)"
    by (auto simp: arcos_def)
  from vecinos_D [OF yn] have yv: "y \<in> set (variables cw)" and nexy: "x \<noteq> y" by auto
  from vecinos_D [OF yn] obtain p q where ovyx: "solapamientos cw (y, x) = Some (p, q)" by auto
  with est have ov: "solapamientos cw (x, y) = Some (q, p)"
    unfolding estructura_ok_def by blast
  from claves_dominio [OF cl xv] obtain dx where dx: "dominio s x = Some dx" by blast
  from claves_dominio [OF cl yv] obtain dy where dy: "dominio s y = Some dy" by blast
  note res = revisar_resultado [OF sep dx dy nexy ov rev]
  from res have rv: "rv = (\<exists>w \<in> set dx. \<not> soportada q p dy w)"
    and doms: "dominios s1 = dominios s"
    and dx1: "dominio s1 x = Some (filter (soportada q p dy) dx)"
    and otros: "\<And>z. z \<noteq> x \<Longrightarrow> dominio s1 z = dominio s z" by auto
  from sep doms have sep1: "separados s1" by (simp add: separados_def)
  from cl doms have cl1: "claves_ok cw s1" by (simp add: claves_ok_def)
  have sub': "set ?arcs' \<subseteq> arcos cw"
  proof -
    have "set (butlast arcs) \<subseteq> arcos cw" using sub by (auto dest: in_set_butlastD)
    moreover have "(z, x) \<in> arcos cw" if "z \<in> set (vecinos cw x)" for z
    proof -
      from that have "(x, z) \<in> arcos cw" using xv by (simp add: arcos_def)
      then show ?thesis using est by (rule arcos_sim [rotated])
    qed
    ultimately show ?thesis by auto
  qed
  have cov': "(a, b) \<in> set ?arcs' \<or> arco_consistente cw s1 a b" if ab: "(a, b) \<in> arcos cw" for a b
  proof (cases "(a, b) = (x, y)")
    case True
    have "arco_consistente cw s1 x y"
      using ov dx1 otros [of y] nexy dy by (auto simp: arco_consistente_def)
    with True show ?thesis by simp
  next
    case nxy: False
    show ?thesis
    proof (cases "(a, b) \<in> set arcs")
      case True
      with nxy l have "(a, b) \<in> set (butlast arcs)"
        by (intro in_set_butlast_no_last) simp_all
      then show ?thesis by auto
    next
      case False
      with cov [OF ab] have ac: "arco_consistente cw s a b" by blast
      from ab have av: "a \<in> set (variables cw)" and bn: "b \<in> set (vecinos cw a)"
        by (auto simp: arcos_def)
      from vecinos_D [OF bn] have bv: "b \<in> set (variables cw)" and nab: "b \<noteq> a"
        and ovba: "solapamientos cw (b, a) \<noteq> None" by auto
      show ?thesis
      proof (cases rv)
        case rvF: False
        with rv have "filter (soportada q p dy) dx = dx" by (auto simp: filter_id_conv)
        with dx1 dx have "dominio s1 x = dominio s x" by simp
        with otros have "dominio s1 z = dominio s z" for z by (cases "z = x") auto
        with ac show ?thesis by (simp add: arco_consistente_def)
      next
        case rvT: True
        show ?thesis
        proof (cases "b = x")
          case bx: False
          from otros [OF bx] have db: "dominio s1 b = dominio s b" .
          have "arco_consistente cw s1 a b"
          proof (cases "a = x")
            case True
            with ac dx dx1 db show ?thesis by (auto simp: arco_consistente_def)
          next
            case False
            from otros [OF this] db ac show ?thesis by (simp add: arco_consistente_def)
          qed
          then show ?thesis ..
        next
          case bx: True
          with nab have ax: "a \<noteq> x" by simp
          from otros [OF ax] have da: "dominio s1 a = dominio s a" .
          show ?thesis
          proof (cases "a = y")
            case True
            have "arco_consistente cw s1 y x"
              unfolding arco_consistente_def
            proof (intro allI impI ballI)
              fix i' j' da' db' wy
              assume o: "solapamientos cw (y, x) = Some (i', j')"
                and 1: "dominio s1 y = Some da'" and 2: "dominio s1 x = Some db'"
                and w: "wy \<in> set da'"
              from o ovyx have ij: "i' = p" "j' = q" by auto
              from 1 da True dy have "da' = dy" by simp
              from 2 dx1 have db': "db' = filter (soportada q p dy) dx" by simp
              from ac True bx ovyx dy dx w \<open>da' = dy\<close> have "soportada p q dx wy"
                by (auto simp: arco_consistente_def)
              then obtain wx where wx: "wx \<in> set dx" "wy ! p = wx ! q"
                by (auto simp: soportada_def)
              with w \<open>da' = dy\<close> have "soportada q p dy wx"
                unfolding soportada_def by (intro bexI [of _ wy]) simp_all
              with wx db' ij show "soportada i' j' db' wy" by (auto simp: soportada_def)
            qed
            with True bx show ?thesis by simp
          next
            case ay: False
            show ?thesis
            proof (cases "solapamientos cw (a, x)")
              case None
              then have "arco_consistente cw s1 a x" by (simp add: arco_consistente_def)
              with bx show ?thesis by simp
            next
              case (Some ij)
              with av ax have "a \<in> set (vecinos cw x)" by (simp add: vecinos_def)
              with ay rvT bx show ?thesis by auto
            qed
          qed
        qed
      qed
    qed
  qed
  from sep1 cl1 sub' cov' show ?thesis unfolding inv_ac3_def by blast
qed

lemma ac3_bucle_consistente_aux:
  assumes "ac3_bucle cw arcs s = Some res"
  shows "\<forall>s'. res = Inr (True, s') \<longrightarrow> estructura_ok cw \<longrightarrow> separados s \<longrightarrow> claves_ok cw s \<longrightarrow>
      inv_ac3 cw arcs s \<longrightarrow>
      separados s' \<and> claves_ok cw s' \<and>
      (\<forall>a b. (a, b) \<in> arcos cw \<longrightarrow> arco_consistente cw s' a b)"
  using assms
proof (induct rule: ac3_bucle.raw_induct [rotated 1, consumes 1, case_names 1])
  case (1 bucle cw arcs s res)
  show ?case
  proof (intro allI impI)
    fix s'
    assume res: "res = Inr (True, s')" and est: "estructura_ok cw" and sep: "separados s"
      and cl: "claves_ok cw s" and inv: "inv_ac3 cw arcs s"
    show "separados s' \<and> claves_ok cw s' \<and>
      (\<forall>a b. (a, b) \<in> arcos cw \<longrightarrow> arco_consistente cw s' a b)"
    proof (cases "arcs = []")
      case True
      with 1(2) res have "s' = s" by simp
      with True inv sep cl show ?thesis by (simp add: inv_ac3_def)
    next
      case False
      obtain x y where xy: "last arcs = (x, y)" by (cases "last arcs")
      from 1(2) False xy res obtain rv s1 where rev: "revisar cw x y s = Inr (rv, s1)"
        by (auto split: sum.splits)
      note p = paso_ac3 [OF est sep cl inv False xy rev]
      show ?thesis
      proof (cases rv)
        case True
        from 1(2) False xy res rev True obtain rx where rx: "map_of (dominios s1) x = Some rx"
          by (auto split: option.splits)
        from 1(2) False xy res rev True rx have hne: "heap s1 rx \<noteq> []"
          by (auto split: if_splits)
        with 1(2) False xy res rev True rx
        have "bucle cw (butlast arcs @ map (\<lambda>z. (z, x)) (removeAll y (vecinos cw x))) s1
            = Some (Inr (True, s'))" by simp
        from 1(1) [OF this] est p True show ?thesis by simp
      next
        case rvF: False
        with 1(2) False xy res rev have "bucle cw (butlast arcs) s1 = Some (Inr (True, s'))"
          by simp
        from 1(1) [OF this] est p rvF show ?thesis by simp
      qed
    qed
  qed
qed

lemma set_todos_los_arcos:
  assumes "claves_ok cw s"
  shows "set (todos_los_arcos cw s) = arcos cw"
proof -
  have "set (todos_los_arcos cw s) =
      {(x, y). x \<in> set (map fst (dominios s)) \<and> y \<in> set (vecinos cw x)}"
    unfolding todos_los_arcos_def by (induction "map fst (dominios s)") auto
  with assms show ?thesis by (simp add: arcos_def claves_ok_def)
qed

text \<open>
  The half of the contract of \<^verbatim>\<open>ac3\<close> that holds: on a puzzle with a symmetric overlap
  table and a store with one separate set for each variable, a run of \<^verbatim>\<open>ac3()\<close> that
  returns true leaves every arc consistent.
\<close>

lemma ac3_arco_consistente:
  assumes "ac3 cw None s = Some (Inr (True, s'))"
    and "estructura_ok cw" and "separados s" and "claves_ok cw s"
  shows "separados s' \<and> claves_ok cw s' \<and>
    (\<forall>x \<in> set (variables cw). \<forall>y \<in> set (vecinos cw x). arco_consistente cw s' x y)"
proof -
  have "inv_ac3 cw (todos_los_arcos cw s) s"
    using set_todos_los_arcos [OF assms(4)] by (simp add: inv_ac3_def)
  with ac3_bucle_consistente_aux [of cw "todos_los_arcos cw s" s "Inr (True, s')"] assms
  have "separados s' \<and> claves_ok cw s' \<and>
      (\<forall>a b. (a, b) \<in> arcos cw \<longrightarrow> arco_consistente cw s' a b)"
    by (simp add: ac3_def)
  then show ?thesis by (simp add: arcos_def)
qed

subsection \<open>The store during the search of solve\<close>

lemma revisar_sin_cambio:
  assumes sep: "separados s" and dx: "dominio s x = Some dx" and dy: "dominio s y = Some dy"
    and ne: "x \<noteq> y" and ac: "arco_consistente cw s x y"
    and rev: "revisar cw x y s = Inr (rv, s1)"
  shows "\<not> rv \<and> s1 = s"
proof (cases "solapamientos cw (x, y)")
  case None
  with rev show ?thesis by (simp add: revisar_def)
next
  case (Some ij)
  obtain i j where ij: "ij = (i, j)" by (cases ij)
  from revisar_resultado [OF sep dx dy ne Some [unfolded ij] rev]
  have "rv = (\<exists>w \<in> set dx. \<not> soportada i j dy w)" by simp
  moreover from ac Some ij dx dy have "\<forall>w \<in> set dx. soportada i j dy w"
    by (simp add: arco_consistente_def)
  ultimately have "\<not> rv" by simp
  with revisar_marco [OF rev] show ?thesis by simp
qed

lemma inferencia_bucle_sin_cambio:
  assumes sep: "separados s" and cl: "claves_ok cw s"
  shows "\<forall>p \<in> set queue. fst p \<in> set (variables cw) \<and> snd p \<in> set (variables cw) \<and>
        fst p \<noteq> snd p \<and> arco_consistente cw s (fst p) (snd p) \<Longrightarrow>
     inferencia_bucle cw queue inferences s = Some (Inr (res, s')) \<Longrightarrow>
     res = Some inferences \<and> s' = s"
proof (induction queue rule: rev_induct)
  case Nil
  from Nil(2) show ?case by (subst (asm) inferencia_bucle.simps) simp
next
  case (snoc p queue)
  obtain x y where p: "p = (x, y)" by (cases p)
  from snoc.prems(1) p have xv: "x \<in> set (variables cw)" and yv: "y \<in> set (variables cw)"
    and ne: "x \<noteq> y" and ac: "arco_consistente cw s x y" by auto
  from claves_dominio [OF cl xv] obtain dx where dx: "dominio s x = Some dx" by blast
  from claves_dominio [OF cl yv] obtain dy where dy: "dominio s y = Some dy" by blast
  from snoc.prems(2) p obtain rv s1 where rev: "revisar cw x y s = Inr (rv, s1)"
    by (subst (asm) inferencia_bucle.simps) (auto split: sum.splits)
  from revisar_sin_cambio [OF sep dx dy ne ac rev] have nrv: "\<not> rv" and s1: "s1 = s" by auto
  from snoc.prems(2) p rev nrv s1
  have "inferencia_bucle cw queue inferences s = Some (Inr (res, s'))"
    by (subst (asm) inferencia_bucle.simps) simp
  moreover from snoc.prems(1) have "\<forall>p \<in> set queue. fst p \<in> set (variables cw) \<and>
      snd p \<in> set (variables cw) \<and> fst p \<noteq> snd p \<and> arco_consistente cw s (fst p) (snd p)"
    by simp
  ultimately show ?case using snoc.IH by blast
qed

lemma inferencia_sin_cambio:
  assumes est: "estructura_ok cw" and pr: "propagado cw s" and var: "var \<in> set (variables cw)"
    and inf: "inferencia cw asig var s = Some (Inr (res, s'))"
  shows "res = Some [] \<and> s' = s"
proof -
  from pr have sep: "separados s" and cl: "claves_ok cw s"
    and ac: "\<And>x y. x \<in> set (variables cw) \<Longrightarrow> y \<in> set (vecinos cw x) \<Longrightarrow> arco_consistente cw s x y"
    by (auto simp: propagado_def)
  have "\<forall>p \<in> set (map (\<lambda>x. (x, var)) (vecinos cw var)). fst p \<in> set (variables cw) \<and>
      snd p \<in> set (variables cw) \<and> fst p \<noteq> snd p \<and> arco_consistente cw s (fst p) (snd p)"
  proof
    fix p assume "p \<in> set (map (\<lambda>x. (x, var)) (vecinos cw var))"
    then obtain x where x: "x \<in> set (vecinos cw var)" "p = (x, var)" by auto
    from vecinos_D [OF x(1)] have xv: "x \<in> set (variables cw)" and ne: "x \<noteq> var" by auto
    from vecinos_sim [OF est var x(1)] have "var \<in> set (vecinos cw x)" .
    from ac [OF xv this] xv var ne x(2)
    show "fst p \<in> set (variables cw) \<and> snd p \<in> set (variables cw) \<and> fst p \<noteq> snd p \<and>
        arco_consistente cw s (fst p) (snd p)" by simp
  qed
  from inferencia_bucle_sin_cambio [OF sep cl this inf [unfolded inferencia_def]]
  show ?thesis .
qed

lemma volcar_inferencias_Nil: "volcar_inferencias [] s = s"
  by (simp add: volcar_inferencias_def)

lemma backtrack_valores_sin_cambio:
  assumes ih: "\<And>asig s r s'. backtrack n cw asig s = Some (Inr (r, s')) \<Longrightarrow>
      propagado cw s \<Longrightarrow> s' = s"
    and est: "estructura_ok cw" and pr: "propagado cw s" and var: "var \<in> set (variables cw)"
  shows "backtrack_valores n cw asig var vals s = Some (Inr (r, s')) \<Longrightarrow> s' = s"
proof (induction vals)
  case Nil
  then show ?case by simp
next
  case (Cons valor resto)
  let ?nueva = "AList.update var valor asig"
  from Cons.prems obtain b where b: "consistencia cw ?nueva = Inr b"
    by (auto split: sum.splits)
  show ?case
  proof (cases b)
    case False
    with Cons.prems b have "backtrack_valores n cw asig var resto s = Some (Inr (r, s'))" by simp
    then show ?thesis by (rule Cons.IH)
  next
    case True
    from Cons.prems b True obtain inf s1 where
      i: "inferencia cw ?nueva var s = Some (Inr (inf, s1))"
      by (auto split: option.splits sum.splits)
    from inferencia_sin_cambio [OF est pr var i] have inf: "inf = Some []" and s1: "s1 = s"
      by auto
    from Cons.prems b True i inf s1 obtain res s2 where
      bt: "backtrack n cw ?nueva s = Some (Inr (res, s2))"
      by (auto simp: volcar_inferencias_Nil split: option.splits sum.splits)
    from ih [OF bt pr] have s2: "s2 = s" .
    show ?thesis
    proof (cases "verdadero res")
      case True
      with Cons.prems b \<open>b\<close> i inf s1 bt s2 show ?thesis
        by (simp add: volcar_inferencias_Nil)
    next
      case False
      with Cons.prems b \<open>b\<close> i inf s1 bt s2
      have "backtrack_valores n cw asig var resto s = Some (Inr (r, s'))"
        by (simp add: volcar_inferencias_Nil)
      then show ?thesis by (rule Cons.IH)
    qed
  qed
qed

lemma backtrack_sin_cambio:
  "backtrack n cw asig s = Some (Inr (r, s')) \<Longrightarrow> estructura_ok cw \<Longrightarrow> propagado cw s \<Longrightarrow>
   s' = s"
proof (induction n arbitrary: asig s r s')
  case 0
  then show ?case by simp
next
  case (Suc n)
  show ?case
  proof (cases "asignacion_completa cw asig")
    case True
    with Suc.prems show ?thesis by simp
  next
    case False
    with Suc.prems(1) obtain var vals where
      sel: "seleccionar_variable_no_asignada cw asig s = Inr var" and
      v: "backtrack_valores n cw asig var vals s = Some (Inr (r, s'))"
      by (auto split: sum.splits)
    from seleccionar_sin_asignar [OF sel] have var: "var \<in> set (variables cw)" by simp
    show ?thesis
    proof (rule backtrack_valores_sin_cambio [where n = n, OF _ Suc.prems(2,3) var v])
      fix asig s r s'
      assume "backtrack n cw asig s = Some (Inr (r, s'))" "propagado cw s"
      with Suc.prems(2) show "s' = s" by (intro Suc.IH)
    qed
  qed
qed

lemma ac3_bucle_False_aux:
  assumes "ac3_bucle cw arcs s = Some res"
  shows "\<forall>s'. res = Inr (False, s') \<longrightarrow> (\<exists>x. dominio s' x = Some [])"
  using assms
proof (induct rule: ac3_bucle.raw_induct [rotated 1, consumes 1, case_names 1])
  case (1 bucle cw arcs s res)
  show ?case
  proof (intro allI impI)
    fix s' assume res: "res = Inr (False, s')"
    show "\<exists>x. dominio s' x = Some []"
    proof (cases "arcs = []")
      case True
      with 1(2) res show ?thesis by simp
    next
      case False
      obtain x y where xy: "last arcs = (x, y)" by (cases "last arcs")
      from 1(2) False xy res obtain rv s1 where rev: "revisar cw x y s = Inr (rv, s1)"
        by (auto split: sum.splits)
      show ?thesis
      proof (cases rv)
        case True
        from 1(2) False xy res rev True obtain rx where rx: "map_of (dominios s1) x = Some rx"
          by (auto split: option.splits)
        show ?thesis
        proof (cases "heap s1 rx = []")
          case True
          with 1(2) False xy res rev \<open>rv\<close> rx have "s' = s1" by simp
          with rx True have "dominio s' x = Some []" by (simp add: dominio_def)
          then show ?thesis ..
        next
          case False
          with 1(2) \<open>arcs \<noteq> []\<close> xy res rev \<open>rv\<close> rx
          have "bucle cw (butlast arcs @ map (\<lambda>z. (z, x)) (removeAll y (vecinos cw x))) s1
              = Some (Inr (False, s'))" by simp
          from 1(1) [OF this] show ?thesis by blast
        qed
      next
        case rvF: False
        with 1(2) False xy res rev have "bucle cw (butlast arcs) s1 = Some (Inr (False, s'))"
          by simp
        from 1(1) [OF this] show ?thesis by blast
      qed
    qed
  qed
qed

lemma ac3_bucle_dominios:
  assumes "ac3_bucle cw arcs s = Some (Inr (b, s'))"
  shows "dominios s' = dominios s"
proof (rule ac3_bucle_inv [where I = "\<lambda>t. dominios t = dominios s", OF assms])
  show "dominios s = dominios s" ..
next
  fix cw x y t rv t'
  assume "revisar cw x y t = Inr (rv, t')" "dominios t = dominios s"
  with revisar_marco [of cw x y t rv t'] show "dominios t' = dominios s" by simp
qed

lemma seleccionar_resultado:
  assumes "\<forall>v \<in> set (variables cw). map_of asig v = None \<longrightarrow> dominio s v \<noteq> None"
  shows "seleccionar_variable_no_asignada cw asig s =
    (case sort_key (\<lambda>v. (tam s v, - int (grado cw v)))
            (filter (\<lambda>v. map_of asig v = None) (variables cw)) of
       [] \<Rightarrow> Inl IndexError
     | v # _ \<Rightarrow> Inr v)"
proof -
  let ?na = "filter (\<lambda>v. map_of asig v = None) (variables cw)"
  let ?f = "\<lambda>v. (tam s v, - int (grado cw v))"
  have "\<forall>v \<in> set ?na. clave_seleccion cw s v = Inr (?f v)"
    using assms by (auto simp: clave_seleccion_def tam_def grado_def dominio_def split: option.splits)
  then have "sorted_py (clave_seleccion cw s) ?na = Inr (sort_key ?f ?na)"
    by (rule sorted_py_total)
  then show ?thesis by (simp add: seleccionar_variable_no_asignada_def)
qed

lemma backtrack_dominio_vacio:
  assumes cl: "claves_ok cw s" and x: "x \<in> set (variables cw)" and dx: "dominio s x = Some []"
    and bt: "backtrack n cw [] s = Some (Inr (r, s'))"
  shows "r = None \<and> s' = s"
proof (cases n)
  case 0
  with bt show ?thesis by simp
next
  case (Suc m)
  let ?f = "\<lambda>v. (tam s v, - int (grado cw v))"
  let ?na = "filter (\<lambda>v. map_of ([]::asignacion) v = None) (variables cw)"
  have na: "?na = variables cw" by simp
  from x have ne: "variables cw \<noteq> []" by auto
  then have nc: "\<not> asignacion_completa cw []" by (simp add: asignacion_completa_def)
  have keys: "\<forall>v \<in> set (variables cw). map_of ([]::asignacion) v = None \<longrightarrow> dominio s v \<noteq> None"
    using claves_dominio [OF cl] by auto
  from ne have ne': "sort_key ?f (variables cw) \<noteq> []" by (metis length_sort length_0_conv)
  let ?v = "hd (sort_key ?f (variables cw))"
  from seleccionar_resultado [OF keys] ne'
  have sel: "seleccionar_variable_no_asignada cw [] s = Inr ?v"
    by (cases "sort_key ?f (variables cw)") simp_all
  from hd_sort_key_primero [OF ne, of ?f] obtain pre post where
    p: "variables cw = pre @ ?v # post" "\<forall>u \<in> set pre. ?f ?v < ?f u" "\<forall>u \<in> set post. ?f ?v \<le> ?f u"
    by blast
  from x have "x \<in> set pre \<or> x = ?v \<or> x \<in> set post" by (subst (asm) p(1)) auto
  with p(2,3) have "?f ?v \<le> ?f x" by fastforce
  then have "tam s ?v \<le> tam s x" unfolding less_eq_prod_def by (simp; linarith)
  with dx have t0: "tam s ?v = 0" by (simp add: tam_def)
  have vv: "?v \<in> set (variables cw)" by (subst p(1)) simp
  from claves_dominio [OF cl vv] obtain d where d: "dominio s ?v = Some d" by blast
  with t0 have "d = []" by (simp add: tam_def)
  with d obtain rv where rv: "map_of (dominios s) ?v = Some rv" "heap s rv = []"
    by (auto simp: dominio_def)
  then have ord: "ordenar_valores_dominio cw ?v [] s = Inr []"
    by (simp add: ordenar_valores_dominio_def sorted_py_def)
  from bt Suc nc sel ord show ?thesis by simp
qed

lemma distinct_update_fresco:
  "distinct (map snd al) \<Longrightarrow> r \<notin> snd ` set al \<Longrightarrow> distinct (map snd (AList.update v r al))"
  by (induction al) (auto dest!: set_update_cases)

lemma consistencia_nodo_paso_separados:
  assumes "almacen_ok s" and "separados s"
  shows "separados (consistencia_nodo_paso v s)"
proof -
  from assms(1) have "libre s \<notin> snd ` set (dominios s)"
    by (auto simp: almacen_ok_def list_all_iff)
  with assms(2) show ?thesis
    by (auto simp: consistencia_nodo_paso_def nuevo_conjunto_def asignar_dominio_def
        separados_def intro!: distinct_update_fresco split: option.splits)
qed

lemma consistencia_nodo_separados:
  assumes "almacen_ok s" and "separados s"
  shows "separados (consistencia_nodo s)"
proof -
  have "almacen_ok s \<Longrightarrow> separados s \<Longrightarrow> separados (fold consistencia_nodo_paso vs s)" for vs s
  proof (induction vs arbitrary: s)
    case Nil
    then show ?case by simp
  next
    case (Cons v vs)
    from paso_ok [OF Cons.prems(1)] consistencia_nodo_paso_separados [OF Cons.prems]
    show ?case by (simp add: Cons.IH)
  qed
  with assms show ?thesis by (simp add: consistencia_nodo_def)
qed

lemma consistencia_nodo_claves:
  assumes "almacen_ok s" and "claves_ok cw s"
  shows "claves_ok cw (consistencia_nodo s)"
  using fold_paso [OF assms(1), of "map fst (dominios s)"] assms(2)
  by (simp add: consistencia_nodo_def claves_ok_def)

text \<open>
  In \<^verbatim>\<open>solve\<close> the search never changes the store: after \<^verbatim>\<open>ac3\<close> the store is
  arc-consistent, and then no inference removes a word, or it holds an empty domain, and
  then the search gives up at once.  The store that \<^verbatim>\<open>solve\<close> leaves is the store
  that \<^verbatim>\<open>ac3\<close> left.
\<close>

lemma solve_almacen:
  assumes est: "estructura_ok cw" and ok: "almacen_ok s" and sep: "separados s"
    and cl: "claves_ok cw s" and sol: "solve n cw s = Some (Inr (r, s'))"
  shows "\<exists>b. ac3 cw None (consistencia_nodo s) = Some (Inr (b, s'))"
proof -
  let ?s0 = "consistencia_nodo s"
  from sol obtain b s1 where a: "ac3 cw None ?s0 = Some (Inr (b, s1))"
    and bt: "backtrack n cw [] s1 = Some (Inr (r, s'))"
    by (auto simp: solve_def split: option.splits sum.splits)
  note sep0 = consistencia_nodo_separados [OF ok sep]
  note cl0 = consistencia_nodo_claves [OF ok cl]
  have "s' = s1"
  proof (cases b)
    case True
    with a ac3_arco_consistente [OF _ est sep0 cl0, of s1] have "propagado cw s1"
      by (simp add: propagado_def)
    with bt est show ?thesis by (rule backtrack_sin_cambio)
  next
    case False
    from a have ab: "ac3_bucle cw (todos_los_arcos cw ?s0) ?s0 = Some (Inr (b, s1))"
      by (simp add: ac3_def)
    from ac3_bucle_False_aux [OF ab] False obtain x where x: "dominio s1 x = Some []" by blast
    from ac3_bucle_dominios [OF ab] cl0 have cl1: "claves_ok cw s1" by (simp add: claves_ok_def)
    from x have "map_of (dominios s1) x \<noteq> None" by (auto simp: dominio_def)
    then have "x \<in> set (map fst (dominios s1))" by (simp add: map_of_eq_None_iff)
    with cl1 have "x \<in> set (variables cw)" by (simp add: claves_ok_def)
    from backtrack_dominio_vacio [OF cl1 this x bt] show ?thesis by simp
  qed
  with a show ?thesis by blast
qed

lemma creador_init_claves: "claves_ok cw (creador_init cw)"
proof -
  let ?paso = "\<lambda>var s. case nuevo_conjunto (words cw) s of (r, s') \<Rightarrow> asignar_dominio var r s'"
  have "set (map fst (dominios (fold ?paso vs s))) = set (map fst (dominios s)) \<union> set vs" for vs s
  proof (induction vs arbitrary: s)
    case Nil
    then show ?case by simp
  next
    case (Cons v vs)
    have "set (map fst (dominios (?paso v s))) = insert v (set (map fst (dominios s)))"
      by (simp add: nuevo_conjunto_def asignar_dominio_def dom_update [simplified dom_map_of_conv_image_fst])
    with Cons.IH [of "?paso v s"] show ?case by auto
  qed
  then show ?thesis by (simp add: creador_init_def claves_ok_def)
qed

lemma estructura_ok_cruce: "estructura_ok (cruce ws)"
  by (auto simp: estructura_ok_def cruce_def var_A_def var_B_def split: if_splits)

text \<open>
  For a solver built by \<^verbatim>\<open>__init__\<close> on a puzzle with a symmetric overlap table, the
  store after \<^verbatim>\<open>solve\<close> is the store after its call of \<^verbatim>\<open>ac3\<close>.
\<close>

lemma solve_almacen_init:
  assumes "estructura_ok cw" and "solve n cw (creador_init cw) = Some (Inr (r, s'))"
  shows "\<exists>b. ac3 cw None (consistencia_nodo (creador_init cw)) = Some (Inr (b, s'))"
  using creador_init_ok [of cw] creador_init_claves [of cw] assms
  by (intro solve_almacen) simp_all

end
